theory Spec2Isabelle
  imports Main "HOL-Library.Word"
begin

unbundle bit_operations_syntax

section \<open>Tree traversal: the visitor results and the server's accept\<close>

text \<open>
  The three results of a visitor callback (\<^verbatim>\<open>visitorResult.h\<close>, used by
  \<^verbatim>\<open>_accept\<close> in the fabric server implementation).
\<close>

datatype VisitorResult = TRAVERSE_CONTINUE | TRAVERSE_TERMINATE | TRAVERSE_PRUNE

text \<open>
  A visitor is a C++ object with mutable members; its callbacks are modelled as functions
  from the visited node and the visitor's state to a result and the new state.
\<close>

record ('n, 's) Visitor =
  visitPre :: "'n \<Rightarrow> 's \<Rightarrow> VisitorResult \<times> 's"
  visitPost :: "'n \<Rightarrow> 's \<Rightarrow> VisitorResult \<times> 's"

text \<open>
  The loop of \<^verbatim>\<open>_accept\<close> over the children. \<open>Inl r\<close> is the early
  \<^verbatim>\<open>return r\<close> out of the loop, \<open>Inr result\<close> is the local variable
  \<^verbatim>\<open>result\<close> when the loop has run to its end. The child's own accept is not part of
  the function and is a parameter.
\<close>

fun accept_children ::
  "('c \<Rightarrow> 's \<Rightarrow> VisitorResult \<times> 's) \<Rightarrow> 'c list \<Rightarrow> VisitorResult \<Rightarrow> 's
     \<Rightarrow> (VisitorResult + VisitorResult) \<times> 's" where
  "accept_children acc [] result s = (Inr result, s)"
| "accept_children acc (c # cs) result s =
     (case acc c s of
        (TRAVERSE_TERMINATE, s') \<Rightarrow> (Inl TRAVERSE_TERMINATE, s')
      | (TRAVERSE_PRUNE, s') \<Rightarrow> accept_children acc cs TRAVERSE_PRUNE s'
      | (TRAVERSE_CONTINUE, s') \<Rightarrow> accept_children acc cs result s')"

text \<open>
  \<^verbatim>\<open>_accept( S* server, V& visitor )\<close>: \<open>visitPre\<close>, the loop over
  \<^verbatim>\<open>server->getConfigs()\<close>, \<open>visitPost\<close>.
\<close>

definition accept_impl ::
  "('n, 's) Visitor \<Rightarrow> ('c \<Rightarrow> 's \<Rightarrow> VisitorResult \<times> 's) \<Rightarrow> 'n \<Rightarrow> 'c list \<Rightarrow> 's
     \<Rightarrow> VisitorResult \<times> 's" where
  "accept_impl visitor acc server configs s =
     (case visitPre visitor server s of
        (result, s1) \<Rightarrow>
          if result \<noteq> TRAVERSE_CONTINUE then (result, s1)
          else (case accept_children acc configs result s1 of
                  (Inl r, s2) \<Rightarrow> (r, s2)
                | (Inr result', s2) \<Rightarrow>
                    (case visitPost visitor server s2 of
                       (TRAVERSE_TERMINATE, s3) \<Rightarrow> (TRAVERSE_TERMINATE, s3)
                     | (TRAVERSE_PRUNE, s3) \<Rightarrow> (TRAVERSE_PRUNE, s3)
                     | (TRAVERSE_CONTINUE, s3) \<Rightarrow> (result', s3))))"

lemma accept_children_cong [fundef_cong]:
  assumes "cs = cs'" and "result = result'" and "s = s'"
    and "\<And>c t. c \<in> set cs' \<Longrightarrow> acc c t = acc' c t"
  shows "accept_children acc cs result s = accept_children acc' cs' result' s'"
  using assms
proof (induction cs' arbitrary: cs result result' s s')
  case Nil
  then show ?case by simp
next
  case (Cons c cs')
  then show ?case
    by (auto split: prod.splits VisitorResult.splits)
qed

lemma accept_impl_cong [fundef_cong]:
  assumes "visitor = visitor'" and "server = server'" and "cs = cs'" and "s = s'"
    and "\<And>c t. c \<in> set cs' \<Longrightarrow> acc c t = acc' c t"
  shows "accept_impl visitor acc server cs s = accept_impl visitor' acc' server' cs' s'"
proof -
  have "accept_children acc cs r t = accept_children acc' cs' r t" for r t
    using assms(3,5) by (intro accept_children_cong) auto
  then have "accept_children acc cs = accept_children acc' cs'"
    by (intro ext)
  then show ?thesis
    unfolding accept_impl_def assms(1,2,4) by (rule arg_cong)
qed

text \<open>
  The entities below the server (config, node, pipe, window, channel) form a tree; an
  entity carries its identity and owns its ordered children.
\<close>

datatype 'a entity = Entity 'a "'a entity list"

text \<open>
  Modelled from the spec: the \<^verbatim>\<open>accept\<close> of the levels below the server is not in
  the sources at hand. The framework combines the results by one rule at every level
  (visitPre, per-child traversal, visitPost), so every level of the tree runs
  \<open>accept_impl\<close>, the child's accept being the same function one level down.
\<close>

fun accept :: "('a, 's) Visitor \<Rightarrow> 'a entity \<Rightarrow> 's \<Rightarrow> VisitorResult \<times> 's" where
  "accept visitor (Entity a cs) s = accept_impl visitor (\<lambda>c t. accept visitor c t) a cs s"

subsection \<open>Recording what a traversal calls\<close>

text \<open>
  To state which callbacks a traversal runs, a visitor is wrapped so that every callback
  appends itself and its result to a trace kept beside the visitor's own state. The
  wrapped visitor returns what the visitor returns; the traversal code is unchanged.
\<close>


datatype 'n callback = VisitPre 'n | VisitPost 'n

type_synonym 'n trace = "('n callback \<times> VisitorResult) list"

definition traced :: "('n, 's) Visitor \<Rightarrow> ('n, 's \<times> 'n trace) Visitor" where
  "traced v =
     \<lparr> visitPre = (\<lambda>n (s, tr). case visitPre v n s of
                        (r, s') \<Rightarrow> (r, (s', tr @ [(VisitPre n, r)]))),
       visitPost = (\<lambda>n (s, tr). case visitPost v n s of
                        (r, s') \<Rightarrow> (r, (s', tr @ [(VisitPost n, r)]))) \<rparr>"

text \<open>The results of the callbacks of a trace, in the order of the calls.\<close>

definition results :: "'n trace \<Rightarrow> VisitorResult list" where
  "results lg = map snd lg"

text \<open>
  What the trace of the loop over the children looks like: no callback but the last
  returned \<open>TRAVERSE_TERMINATE\<close>; an early return is \<open>TRAVERSE_TERMINATE\<close> and was
  caused by the last callback; a loop run to its end saw no \<open>TRAVERSE_TERMINATE\<close>, and its
  result variable is \<open>TRAVERSE_PRUNE\<close> exactly when it started so or a callback returned it.
\<close>

definition loop_trace_ok :: "VisitorResult \<Rightarrow> (VisitorResult + VisitorResult) \<Rightarrow> VisitorResult list \<Rightarrow> bool" where
  "loop_trace_ok r0 res rs =
     (TRAVERSE_TERMINATE \<notin> set (butlast rs) \<and>
      (case res of
         Inl r \<Rightarrow> r = TRAVERSE_TERMINATE \<and> rs \<noteq> [] \<and> last rs = TRAVERSE_TERMINATE
       | Inr r \<Rightarrow> TRAVERSE_TERMINATE \<notin> set rs \<and>
                  r = (if TRAVERSE_PRUNE \<in> set rs then TRAVERSE_PRUNE else r0)))"

text \<open>The same for the accept of one node, whose trace starts with its \<open>visitPre\<close>.\<close>

definition trace_ok :: "VisitorResult \<Rightarrow> VisitorResult list \<Rightarrow> bool" where
  "trace_ok r rs =
     (rs \<noteq> [] \<and> TRAVERSE_TERMINATE \<notin> set (butlast rs) \<and>
      (r = TRAVERSE_TERMINATE \<longleftrightarrow> last rs = TRAVERSE_TERMINATE) \<and>
      (r = TRAVERSE_CONTINUE \<longleftrightarrow> set rs = {TRAVERSE_CONTINUE}))"

text \<open>
  A child's accept \<open>acc\<close> and its traced run \<open>acc'\<close> agree, and the traced run appends a
  well-formed trace.
\<close>

definition child_traced :: "('c \<Rightarrow> 's \<Rightarrow> VisitorResult \<times> 's) \<Rightarrow> ('c \<Rightarrow> 's \<times> 'n trace \<Rightarrow> VisitorResult \<times> 's \<times> 'n trace) \<Rightarrow> 'c \<Rightarrow> bool" where
  "child_traced acc acc' c =
     (\<forall>s. \<exists>lg. trace_ok (fst (acc c s)) (results lg) \<and>
        (\<forall>tr. acc' c (s, tr) = (fst (acc c s), (snd (acc c s), tr @ lg))))"


text \<open>Two visitors over entities numbered by naturals; their state counts the callbacks.\<close>

definition terminate_at :: "nat \<Rightarrow> (nat, nat) Visitor" where
  "terminate_at n =
     \<lparr> visitPre = (\<lambda>m k. (if m = n then TRAVERSE_TERMINATE else TRAVERSE_CONTINUE, Suc k)),
       visitPost = (\<lambda>m k. (TRAVERSE_CONTINUE, Suc k)) \<rparr>"

definition prune_at :: "nat \<Rightarrow> (nat, nat) Visitor" where
  "prune_at n =
     \<lparr> visitPre = (\<lambda>m k. (if m = n then TRAVERSE_PRUNE else TRAVERSE_CONTINUE, Suc k)),
       visitPost = (\<lambda>m k. (TRAVERSE_CONTINUE, Suc k)) \<rparr>"




section \<open>The frame update of the compound tree\<close>

text \<open>
  Compounds and channels are objects referred to by pointer; a pointer is an address, and
  the null pointer is \<open>None\<close>.
\<close>

type_synonym compound_ptr = nat
type_synonym channel_ptr = nat

text \<open>\<^verbatim>\<open>Channel::State\<close> of the server's channel.\<close>

datatype State = STATE_STOPPED | STATE_INITIALIZING | STATE_INIT_FAILED | STATE_RUNNING
  | STATE_STOPPING | STATE_STOP_FAILED

text \<open>
  The members of the server's \<^verbatim>\<open>Channel\<close> that the properties below read or write:
  \<^verbatim>\<open>_state\<close> (a monitored variable) and \<^verbatim>\<open>_lastDrawCompound\<close>.
\<close>

record Channel =
  state :: State
  lastDrawCompound :: "compound_ptr option"

text \<open>\<^verbatim>\<open>Channel::setLastDrawCompound\<close> and \<^verbatim>\<open>Channel::getLastDrawCompound\<close>.\<close>

definition setLastDrawCompound :: "compound_ptr option \<Rightarrow> Channel \<Rightarrow> Channel" where
  "setLastDrawCompound compound ch = ch\<lparr>lastDrawCompound := compound\<rparr>"

definition getLastDrawCompound :: "Channel \<Rightarrow> compound_ptr option" where
  "getLastDrawCompound ch = lastDrawCompound ch"

text \<open>
  What ends a run abnormally: the use of a null or of a stale pointer, and a failed
  \<^verbatim>\<open>EQASSERT\<close>.
\<close>

datatype fault = NullDereference | InvalidPointer | AssertFailed

text \<open>
  Modelled from the spec: the class \<^verbatim>\<open>Compound\<close> and the constant
  \<^verbatim>\<open>eq::TASK_DRAW\<close> are not in the sources at hand. The members of a compound that
  the update visitor calls are parameters. They work on the data of the compound tree
  \<open>'x\<close> (listeners, inherited task mask, viewport, frustum): \<open>fireUpdatePre\<close> notifies
  the listeners, \<open>updateInheritData\<close> recomputes the inherited data, the other three read
  it. None of them writes a channel's last-draw compound, which only the draw-finish step
  records.
\<close>

record 'x Compound_ops =
  TASK_DRAW :: "32 word"
  fireUpdatePre :: "compound_ptr \<Rightarrow> 32 word \<Rightarrow> 'x \<Rightarrow> 'x"
  updateInheritData :: "compound_ptr \<Rightarrow> 32 word \<Rightarrow> 'x \<Rightarrow> 'x"
  testInheritTask :: "compound_ptr \<Rightarrow> 32 word \<Rightarrow> 'x \<Rightarrow> bool"
  isActive :: "compound_ptr \<Rightarrow> 'x \<Rightarrow> bool"
  getChannel :: "compound_ptr \<Rightarrow> 'x \<Rightarrow> channel_ptr option"

text \<open>The state the visitor works on: the data of the compound tree and the channels.\<close>

record 'x world =
  compounds :: 'x
  channels :: "channel_ptr \<rightharpoonup> Channel"

text \<open>
  \<^verbatim>\<open>CompoundUpdateDataVisitor::_updateDrawFinish\<close>. The call through the channel
  pointer is a fault when the pointer is null or refers to no channel.
\<close>

definition updateDrawFinish :: "'x Compound_ops \<Rightarrow> compound_ptr \<Rightarrow> 'x world \<Rightarrow> fault + 'x world" where
  "updateDrawFinish ops compound w =
     (if \<not> testInheritTask ops compound (TASK_DRAW ops) (compounds w) \<or>
         \<not> isActive ops compound (compounds w)
      then Inr w
      else (case getChannel ops compound (compounds w) of
              None \<Rightarrow> Inl NullDereference
            | Some channel \<Rightarrow>
                (case channels w channel of
                   None \<Rightarrow> Inl InvalidPointer
                 | Some ch \<Rightarrow>
                     Inr (w\<lparr>channels :=
                            (channels w)(channel \<mapsto> setLastDrawCompound (Some compound) ch)\<rparr>))))"

text \<open>
  \<^verbatim>\<open>CompoundUpdateDataVisitor::visit\<close>; \<open>frameNumber\<close> is the visitor's member
  \<^verbatim>\<open>_frameNumber\<close>.
\<close>

definition visit ::
  "'x Compound_ops \<Rightarrow> 32 word \<Rightarrow> compound_ptr \<Rightarrow> 'x world \<Rightarrow> fault + (VisitorResult \<times> 'x world)" where
  "visit ops frameNumber compound w =
     (let w1 = w\<lparr>compounds := fireUpdatePre ops compound frameNumber (compounds w)\<rparr>;
          w2 = w1\<lparr>compounds := updateInheritData ops compound frameNumber (compounds w1)\<rparr>
      in case updateDrawFinish ops compound w2 of
           Inl e \<Rightarrow> Inl e
         | Inr w3 \<Rightarrow> Inr (TRAVERSE_CONTINUE, w3))"

text \<open>
  Modelled from the spec: \<^verbatim>\<open>Compound::accept\<close> and the base class
  \<^verbatim>\<open>CompoundVisitor\<close> are not in the sources at hand. The pass walks the compound
  tree with the framework's traversal and hands every compound to \<open>visit\<close> before its
  children; nothing is done on the way up. A fault ends the run: the walk terminates with
  the fault as its state.
\<close>

definition updateDataVisitor ::
  "'x Compound_ops \<Rightarrow> 32 word \<Rightarrow> (compound_ptr, fault + 'x world) Visitor" where
  "updateDataVisitor ops frameNumber =
     \<lparr> visitPre = (\<lambda>compound st.
          case st of
            Inl e \<Rightarrow> (TRAVERSE_TERMINATE, Inl e)
          | Inr w \<Rightarrow>
              (case visit ops frameNumber compound w of
                 Inl e \<Rightarrow> (TRAVERSE_TERMINATE, Inl e)
               | Inr (r, w') \<Rightarrow> (r, Inr w'))),
       visitPost = (\<lambda>compound st. (TRAVERSE_CONTINUE, st)) \<rparr>"

text \<open>
  Modelled from the spec: the pass over the compound tree for one frame, from the root (the
  caller of \<^verbatim>\<open>Compound::accept\<close> is not in the sources at hand). The result is the
  state after the pass, or the fault that ended it.
\<close>

definition updateData ::
  "'x Compound_ops \<Rightarrow> 32 word \<Rightarrow> compound_ptr entity \<Rightarrow> 'x world \<Rightarrow> fault + 'x world" where
  "updateData ops frameNumber root w = snd (accept (updateDataVisitor ops frameNumber) root (Inr w))"

text \<open>The nodes of a tree, parent before children, children in order.\<close>

fun preorder :: "'a entity \<Rightarrow> 'a list" where
  "preorder (Entity a cs) = a # concat (map preorder cs)"

text \<open>The visits of a list of compounds one after the other, up to the first fault.\<close>

fun visit_all :: "'x Compound_ops \<Rightarrow> 32 word \<Rightarrow> compound_ptr list \<Rightarrow> 'x world \<Rightarrow> fault + 'x world" where
  "visit_all ops frameNumber [] w = Inr w"
| "visit_all ops frameNumber (c # cs) w =
     (case visit ops frameNumber c w of
        Inl e \<Rightarrow> Inl e
      | Inr (r, w') \<Rightarrow> visit_all ops frameNumber cs w')"

text \<open>
  The draw participants of a pass over the compounds \<open>cs\<close>, in the order of the visits:
  the compounds that are active and whose inherited tasks include the draw task when they
  are visited (that is, after their inherited data is recomputed), each with the channel it
  refers to at that time.
\<close>

fun drawCompounds ::
  "'x Compound_ops \<Rightarrow> 32 word \<Rightarrow> compound_ptr list \<Rightarrow> 'x \<Rightarrow> (compound_ptr \<times> channel_ptr option) list" where
  "drawCompounds ops frameNumber [] x = []"
| "drawCompounds ops frameNumber (c # cs) x =
     (let x' = updateInheritData ops c frameNumber (fireUpdatePre ops c frameNumber x)
      in (if testInheritTask ops c (TASK_DRAW ops) x' \<and> isActive ops c x'
          then [(c, getChannel ops c x')] else [])
         @ drawCompounds ops frameNumber cs x')"

text \<open>The last draw participant of a pass that refers to channel \<open>p\<close>, if any.\<close>

definition lastDrawOf :: "channel_ptr \<Rightarrow> (compound_ptr \<times> channel_ptr option) list \<Rightarrow> compound_ptr option" where
  "lastDrawOf p ds =
     (case filter (\<lambda>d. snd d = Some p) ds of
        [] \<Rightarrow> None
      | d # ds' \<Rightarrow> Some (fst (last (d # ds'))))"



subsection \<open>An instance: three compounds and two channels\<close>

text \<open>
  Compound 1 is the root with the draw task, compounds 2 and 3 are its children and inherit
  their tasks; 1 and 2 refer to channel 7, 3 is inactive and has no channel. The data of the
  compound tree records the calls of \<open>fireUpdatePre\<close> and \<open>updateInheritData\<close>.
\<close>

datatype update_event = NotifyUpdatePre compound_ptr "32 word" | UpdateInheritData compound_ptr "32 word"

record demo_data =
  events :: "update_event list"
  inheritTasks :: "compound_ptr \<Rightarrow> 32 word"

definition demo_tasks :: "compound_ptr \<Rightarrow> 32 word" where
  "demo_tasks c = (if c = 1 then 0x400 else 0)"

definition demo_parent :: "compound_ptr \<Rightarrow> compound_ptr option" where
  "demo_parent c = (if c = 1 then None else Some 1)"

definition demo_ops :: "demo_data Compound_ops" where
  "demo_ops =
     \<lparr> TASK_DRAW = 0x400,
       fireUpdatePre = (\<lambda>c f x. x\<lparr>events := events x @ [NotifyUpdatePre c f]\<rparr>),
       updateInheritData = (\<lambda>c f x.
          x\<lparr>events := events x @ [UpdateInheritData c f],
            inheritTasks := (inheritTasks x)
              (c := demo_tasks c OR (case demo_parent c of None \<Rightarrow> 0 | Some p \<Rightarrow> inheritTasks x p))\<rparr>),
       testInheritTask = (\<lambda>c task x. inheritTasks x c AND task = task),
       isActive = (\<lambda>c x. c \<noteq> 3),
       getChannel = (\<lambda>c x. if c = 3 then None else Some 7) \<rparr>"

definition demo_world :: "demo_data world" where
  "demo_world =
     \<lparr> compounds = \<lparr>events = [], inheritTasks = (\<lambda>c. 0)\<rparr>,
       channels = [7 \<mapsto> \<lparr>state = STATE_RUNNING, lastDrawCompound = None\<rparr>,
                   8 \<mapsto> \<lparr>state = STATE_RUNNING, lastDrawCompound = Some 5\<rparr>] \<rparr>"

definition demo_tree :: "compound_ptr entity" where
  "demo_tree = Entity 1 [Entity 2 [], Entity 3 []]"

text \<open>The same world when every compound has the draw task among its inherited tasks.\<close>

definition demo_drawing :: "demo_data world" where
  "demo_drawing = demo_world\<lparr>compounds := \<lparr>events = [], inheritTasks = (\<lambda>c. 0x400)\<rparr>\<rparr>"


section \<open>The view: destruction and serialization\<close>

type_synonym layout_ptr = nat

text \<open>
  The members of \<^verbatim>\<open>eq::View\<close>: the base-class part \<^verbatim>\<open>Frustum\<close>, the
  \<^verbatim>\<open>_viewport\<close> and the pointer \<^verbatim>\<open>_layout\<close> to the owning layout. The classes
  \<^verbatim>\<open>Frustum\<close> and \<^verbatim>\<open>Viewport\<close> are declared elsewhere; their values are
  opaque here.
\<close>

record ('fr, 'vp) View =
  frustum :: 'fr
  viewport :: 'vp
  layout :: "layout_ptr option"

text \<open>
  Modelled from the spec: the macro \<^verbatim>\<open>EQASSERT\<close> is not in the sources at hand. It
  is a checked invariant: a condition that does not hold is a fault, and the function does
  not go on.
\<close>

definition EQASSERT :: "bool \<Rightarrow> fault + unit" where
  "EQASSERT x = (if x then Inr () else Inl AssertFailed)"

text \<open>\<^verbatim>\<open>View::View()\<close> sets \<^verbatim>\<open>_layout\<close> to null.\<close>

definition View_ctor :: "'fr \<Rightarrow> 'vp \<Rightarrow> ('fr, 'vp) View" where
  "View_ctor fr vp = \<lparr>frustum = fr, viewport = vp, layout = None\<rparr>"

text \<open>\<^verbatim>\<open>View::~View()\<close>: the assertion, then \<^verbatim>\<open>_layout = 0\<close>.\<close>

definition View_dtor :: "('fr, 'vp) View \<Rightarrow> fault + ('fr, 'vp) View" where
  "View_dtor v =
     (case EQASSERT (layout v = None) of
        Inl e \<Rightarrow> Inl e
      | Inr _ \<Rightarrow> Inr (v\<lparr>layout := None\<rparr>))"

text \<open>
  Modelled from the spec: the streams \<^verbatim>\<open>net::DataOStream\<close> and
  \<^verbatim>\<open>net::DataIStream\<close> are not in the sources at hand. A stream is the ordered
  sequence of the values written to it: \<^verbatim>\<open>os << x\<close> appends \<open>x\<close>,
  \<^verbatim>\<open>is >> x\<close> takes the first value, and fails (\<open>None\<close>) when there is none or it
  is not a viewport.
\<close>

datatype ('b, 'vp) item = FrustumData 'b | ViewportData 'vp

text \<open>
  Modelled from the spec: \<^verbatim>\<open>Frustum::serialize\<close>, \<^verbatim>\<open>Frustum::deserialize\<close>
  and the constant \<^verbatim>\<open>DIRTY_VIEWPORT\<close> are not in the sources at hand and are
  parameters. \<open>Frustum_serialize\<close> gives the values the base class appends to the
  stream for the given dirty bits, \<open>Frustum_deserialize\<close> reads the base-class part from
  the front of the stream and gives the new frustum and the rest of the stream.
\<close>

record ('fr, 'b, 'vp) Frustum_ops =
  DIRTY_VIEWPORT :: "64 word"
  Frustum_serialize :: "'fr \<Rightarrow> 64 word \<Rightarrow> ('b, 'vp) item list"
  Frustum_deserialize :: "'fr \<Rightarrow> ('b, 'vp) item list \<Rightarrow> 64 word \<Rightarrow> ('fr \<times> ('b, 'vp) item list) option"

text \<open>
  Modelled from the spec: \<^verbatim>\<open>os << _viewport\<close> and \<^verbatim>\<open>is >> _viewport\<close> on the
  streams described above.
\<close>

definition put_viewport :: "('b, 'vp) item list \<Rightarrow> 'vp \<Rightarrow> ('b, 'vp) item list" where
  "put_viewport os vp = os @ [ViewportData vp]"

fun get_viewport :: "('b, 'vp) item list \<Rightarrow> ('vp \<times> ('b, 'vp) item list) option" where
  "get_viewport (ViewportData vp # rest) = Some (vp, rest)"
| "get_viewport _ = None"

text \<open>\<^verbatim>\<open>View::serialize( os, dirtyBits )\<close>; the result is the stream afterwards.\<close>

definition serialize ::
  "('fr, 'b, 'vp) Frustum_ops \<Rightarrow> ('fr, 'vp) View \<Rightarrow> ('b, 'vp) item list \<Rightarrow> 64 word
     \<Rightarrow> ('b, 'vp) item list" where
  "serialize F v os dirtyBits =
     (let os1 = os @ Frustum_serialize F (frustum v) dirtyBits
      in if dirtyBits AND DIRTY_VIEWPORT F \<noteq> 0 then put_viewport os1 (viewport v) else os1)"

text \<open>
  \<^verbatim>\<open>View::deserialize( is, dirtyBits )\<close>; the result is the view and the stream
  afterwards.
\<close>

definition deserialize ::
  "('fr, 'b, 'vp) Frustum_ops \<Rightarrow> ('fr, 'vp) View \<Rightarrow> ('b, 'vp) item list \<Rightarrow> 64 word
     \<Rightarrow> (('fr, 'vp) View \<times> ('b, 'vp) item list) option" where
  "deserialize F v is dirtyBits =
     (case Frustum_deserialize F (frustum v) is dirtyBits of
        None \<Rightarrow> None
      | Some (fr, is1) \<Rightarrow>
          if dirtyBits AND DIRTY_VIEWPORT F \<noteq> 0
          then (case get_viewport is1 of
                  None \<Rightarrow> None
                | Some (vp, is2) \<Rightarrow> Some (v\<lparr>frustum := fr, viewport := vp\<rparr>, is2))
          else Some (v\<lparr>frustum := fr\<rparr>, is1))"

text \<open>
  An instance: the frustum is one number, written when bit 0 of the dirty bits is set;
  \<^verbatim>\<open>DIRTY_VIEWPORT\<close> is bit 1.
\<close>

definition demo_frustum :: "(nat, nat, nat) Frustum_ops" where
  "demo_frustum =
     \<lparr> DIRTY_VIEWPORT = 2,
       Frustum_serialize = (\<lambda>fr d. if d AND 1 \<noteq> 0 then [FrustumData fr] else []),
       Frustum_deserialize = (\<lambda>fr is d.
          if d AND 1 \<noteq> 0
          then (case is of FrustumData x # rest \<Rightarrow> Some (x, rest) | _ \<Rightarrow> None)
          else Some (fr, is)) \<rparr>"

section \<open>The command handlers of the server\<close>













section \<open>The initialisation of a channel\<close>

text \<open>
  \<^verbatim>\<open>channel.h\<close> declares \<^verbatim>\<open>Channel::startConfigInit\<close>,
  \<^verbatim>\<open>Channel::syncConfigInit\<close> and the handler of the init reply,
  \<^verbatim>\<open>Channel::_cmdConfigInitReply\<close>; their bodies are in no source file given, and
  the three functions below follow the spec.
\<close>

type_synonym instance_ptr = nat

datatype ChannelCommand = ChannelConfigInit "32 word"

text \<open>
  Modelled from the spec: the body of \<^verbatim>\<open>Channel::startConfigInit\<close> is missing. It
  sets the state to \<open>STATE_INITIALIZING\<close>, sends an init command to every remote
  instance, and returns without blocking. The result is the channel and the commands sent.
\<close>

definition startConfigInit ::
  "instance_ptr list \<Rightarrow> 32 word \<Rightarrow> Channel \<Rightarrow> Channel \<times> (instance_ptr \<times> ChannelCommand) list" where
  "startConfigInit instances initID ch =
     (ch\<lparr>state := STATE_INITIALIZING\<rparr>, map (\<lambda>i. (i, ChannelConfigInit initID)) instances)"

text \<open>
  Modelled from the spec: the body of \<^verbatim>\<open>Channel::_cmdConfigInitReply\<close> is missing.
  The reply moves an initializing channel to \<open>STATE_RUNNING\<close> on success and to
  \<open>STATE_INIT_FAILED\<close> on failure; a reply in any other state is dropped and leaves the
  channel as it is.
\<close>

definition cmdConfigInitReply :: "bool \<Rightarrow> Channel \<Rightarrow> Channel" where
  "cmdConfigInitReply result ch =
     (if state ch = STATE_INITIALIZING
      then ch\<lparr>state := (if result then STATE_RUNNING else STATE_INIT_FAILED)\<rparr>
      else ch)"

text \<open>
  Modelled from the spec: the body of \<^verbatim>\<open>Channel::syncConfigInit\<close> is missing. It
  blocks on the monitored state until the state leaves \<open>STATE_INITIALIZING\<close>, then returns
  whether the state is \<open>STATE_RUNNING\<close>. The wait is rendered by the replies that the
  handling thread still has to process, in their order: \<open>syncConfigInit\<close> returns at once
  when the state is not \<open>STATE_INITIALIZING\<close>, and otherwise lets the next reply be
  handled and looks again.
  \<open>None\<close> is a wait that never ends, no reply being left. The result is the value
  returned, the channel and the replies not yet handled.
\<close>

fun syncConfigInit :: "bool list \<Rightarrow> Channel \<Rightarrow> (bool \<times> Channel \<times> bool list) option" where
  "syncConfigInit replies ch =
     (if state ch \<noteq> STATE_INITIALIZING then Some (state ch = STATE_RUNNING, ch, replies)
      else (case replies of
              [] \<Rightarrow> None
            | result # rest \<Rightarrow> syncConfigInit rest (cmdConfigInitReply result ch)))"

declare syncConfigInit.simps [simp del]

section \<open>Compare and swap\<close>

text \<open>
  \<^verbatim>\<open>template <class C, class D> compareAndSwap( volatile C* addr, D old, D nw )\<close>,
  the branch that emulates the operation under a spin lock; the other branches hand the
  same arguments to a compiler or system primitive. The lock makes the body run alone, so
  it is a function of the memory. The location holds a \<open>'c\<close>, the two values are \<open>'d\<close>s.
  What \<^verbatim>\<open>*addr == old\<close> and \<^verbatim>\<open>*addr = nw\<close> do is fixed by the two types and not
  by the template: \<open>equals\<close> is the comparison of a \<open>'c\<close> with a \<open>'d\<close> (for arithmetic
  types, after the usual conversions), \<open>assign\<close> the conversion of a \<open>'d\<close> to the \<open>'c\<close>
  that the assignment stores.
\<close>

definition compareAndSwap ::
  "('c \<Rightarrow> 'd \<Rightarrow> bool) \<Rightarrow> ('d \<Rightarrow> 'c) \<Rightarrow> 'addr \<Rightarrow> 'd \<Rightarrow> 'd \<Rightarrow> ('addr \<Rightarrow> 'c)
     \<Rightarrow> bool \<times> ('addr \<Rightarrow> 'c)" where
  "compareAndSwap equals assign addr old nw mem =
     (if equals (mem addr) old then (True, mem(addr := assign nw)) else (False, mem))"

text \<open>
  The two operators for \<^verbatim>\<open>C = uint8_t\<close> and \<^verbatim>\<open>D = int\<close>: the comparison
  promotes the \<^verbatim>\<open>uint8_t\<close> to \<^verbatim>\<open>int\<close> and compares the values; the assignment
  keeps the low eight bits.
\<close>

definition uint8_equals_int :: "8 word \<Rightarrow> 32 word \<Rightarrow> bool" where
  "uint8_equals_int a b = (uint a = sint b)"

definition int_to_uint8 :: "32 word \<Rightarrow> 8 word" where
  "int_to_uint8 b = ucast b"

text \<open>
  Two memories for the instances below: in each, address 1 holds 5 and every other
  address 0; the first holds \<^verbatim>\<open>uint32_t\<close>s, the second \<^verbatim>\<open>uint8_t\<close>s.
\<close>

definition demo_mem :: "nat \<Rightarrow> 32 word" where
  "demo_mem = (\<lambda>a. 0)(1 := 5)"

definition demo_bytes :: "nat \<Rightarrow> 8 word" where
  "demo_bytes = (\<lambda>a. 0)(1 := 5)"


section \<open>Properties of the traversal\<close>

lemma loop_ok_Cons_terminate:
  assumes "trace_ok TRAVERSE_TERMINATE rs"
  shows "loop_trace_ok r0 (Inl TRAVERSE_TERMINATE) rs"
  using assms by (auto simp: trace_ok_def loop_trace_ok_def)

lemma butlast_append_notin:
  assumes "x \<notin> set xs" and "x \<notin> set (butlast ys)"
  shows "x \<notin> set (butlast (xs @ ys))"
  using assms by (cases "ys = []") (auto simp: butlast_append dest: in_set_butlastD)

lemma trace_ok_no_term:
  assumes "trace_ok r rs" and "r \<noteq> TRAVERSE_TERMINATE"
  shows "TRAVERSE_TERMINATE \<notin> set rs"
proof -
  from assms have ne: "rs \<noteq> []" and bl: "TRAVERSE_TERMINATE \<notin> set (butlast rs)"
    and l: "last rs \<noteq> TRAVERSE_TERMINATE"
    by (auto simp: trace_ok_def)
  from ne have "rs = butlast rs @ [last rs]" by simp
  then have "set rs = set (butlast rs) \<union> {last rs}"
    by (metis list.set(1) list.simps(15) set_append Un_insert_right sup_bot.right_neutral)
  with bl l show ?thesis by auto
qed

lemma trace_ok_prune:
  assumes "trace_ok TRAVERSE_PRUNE rs"
  shows "TRAVERSE_PRUNE \<in> set rs"
proof (rule ccontr)
  assume np: "TRAVERSE_PRUNE \<notin> set rs"
  have nt: "TRAVERSE_TERMINATE \<notin> set rs"
    using assms trace_ok_no_term by blast
  have "rs \<noteq> []" using assms by (simp add: trace_ok_def)
  have "\<And>x. x \<in> set rs \<Longrightarrow> x = TRAVERSE_CONTINUE"
    using np nt by (metis VisitorResult.exhaust)
  with \<open>rs \<noteq> []\<close> have "set rs = {TRAVERSE_CONTINUE}"
    by (cases rs) auto
  with assms show False by (simp add: trace_ok_def)
qed

lemma trace_ok_continue:
  assumes "trace_ok TRAVERSE_CONTINUE rs"
  shows "set rs = {TRAVERSE_CONTINUE}"
  using assms by (simp add: trace_ok_def)

lemma accept_children_traced:
  assumes "\<forall>c \<in> set cs. child_traced acc acc' c"
  shows "\<exists>lg. loop_trace_ok r0 (fst (accept_children acc cs r0 s)) (results lg) \<and>
           (\<forall>tr. accept_children acc' cs r0 (s, tr) =
                   (fst (accept_children acc cs r0 s), (snd (accept_children acc cs r0 s), tr @ lg)))"
  using assms
proof (induction cs arbitrary: r0 s)
  case Nil
  have "loop_trace_ok r0 (Inr r0) (results [])"
    by (simp add: loop_trace_ok_def results_def)
  then show ?case by (intro exI[of _ "[]"]) simp
next
  case (Cons c cs)
  from Cons.prems have "child_traced acc acc' c" by simp
  then obtain lg1 where ok1: "trace_ok (fst (acc c s)) (results lg1)"
    and eq1: "\<And>tr. acc' c (s, tr) = (fst (acc c s), (snd (acc c s), tr @ lg1))"
    unfolding child_traced_def by blast
  obtain r1 s1 where c: "acc c s = (r1, s1)" by (cases "acc c s")
  show ?case
  proof (cases r1)
    case TRAVERSE_TERMINATE
    with c ok1 have "loop_trace_ok r0 (Inl TRAVERSE_TERMINATE) (results lg1)"
      by (simp add: loop_ok_Cons_terminate)
    then show ?thesis
      using c eq1 TRAVERSE_TERMINATE by (intro exI[of _ lg1]) simp
  next
    case TRAVERSE_PRUNE
    from Cons.IH[of TRAVERSE_PRUNE s1] Cons.prems
    obtain lg2 where ok2: "loop_trace_ok TRAVERSE_PRUNE (fst (accept_children acc cs TRAVERSE_PRUNE s1)) (results lg2)"
      and eq2: "\<And>tr. accept_children acc' cs TRAVERSE_PRUNE (s1, tr) =
                   (fst (accept_children acc cs TRAVERSE_PRUNE s1), (snd (accept_children acc cs TRAVERSE_PRUNE s1), tr @ lg2))"
      by auto
    have p: "TRAVERSE_PRUNE \<in> set (results lg1)" and nt: "TRAVERSE_TERMINATE \<notin> set (results lg1)"
      using ok1 c TRAVERSE_PRUNE trace_ok_prune trace_ok_no_term by fastforce+
    have "loop_trace_ok r0 (fst (accept_children acc cs TRAVERSE_PRUNE s1)) (results (lg1 @ lg2))"
      using ok2 p nt butlast_append_notin[OF nt, of "results lg2"]
      by (auto simp: loop_trace_ok_def results_def split: sum.splits)
    then show ?thesis
      using c eq1 eq2 TRAVERSE_PRUNE by (intro exI[of _ "lg1 @ lg2"]) simp
  next
    case TRAVERSE_CONTINUE
    from Cons.IH[of r0 s1] Cons.prems
    obtain lg2 where ok2: "loop_trace_ok r0 (fst (accept_children acc cs r0 s1)) (results lg2)"
      and eq2: "\<And>tr. accept_children acc' cs r0 (s1, tr) =
                   (fst (accept_children acc cs r0 s1), (snd (accept_children acc cs r0 s1), tr @ lg2))"
      by auto
    have p: "set (results lg1) = {TRAVERSE_CONTINUE}"
      using ok1 c TRAVERSE_CONTINUE trace_ok_continue by fastforce
    then have nt: "TRAVERSE_TERMINATE \<notin> set (results lg1)" by simp
    have "loop_trace_ok r0 (fst (accept_children acc cs r0 s1)) (results (lg1 @ lg2))"
      using ok2 p butlast_append_notin[OF nt, of "results lg2"]
      by (auto simp: loop_trace_ok_def results_def split: sum.splits)
    then show ?thesis
      using c eq1 eq2 TRAVERSE_CONTINUE by (intro exI[of _ "lg1 @ lg2"]) simp
  qed
qed


lemma accept_impl_traced:
  assumes "\<forall>c \<in> set cs. child_traced acc acc' c"
  shows "\<exists>lg. trace_ok (fst (accept_impl v acc a cs s)) (results lg) \<and>
           (\<forall>tr. accept_impl (traced v) acc' a cs (s, tr) =
                   (fst (accept_impl v acc a cs s), (snd (accept_impl v acc a cs s), tr @ lg)))"
proof -
  obtain r s1 where pre: "visitPre v a s = (r, s1)" by (cases "visitPre v a s")
  then have tpre: "\<And>tr. visitPre (traced v) a (s, tr) = (r, (s1, tr @ [(VisitPre a, r)]))"
    by (simp add: traced_def)
  show ?thesis
  proof (cases "r = TRAVERSE_CONTINUE")
    case False
    have "trace_ok r (results [(VisitPre a, r)])"
      using False by (simp add: trace_ok_def results_def)
    then show ?thesis
      using pre tpre False by (intro exI[of _ "[(VisitPre a, r)]"]) (simp add: accept_impl_def)
  next
    case True
    from accept_children_traced[OF assms, of TRAVERSE_CONTINUE s1]
    obtain lg where ok: "loop_trace_ok TRAVERSE_CONTINUE (fst (accept_children acc cs TRAVERSE_CONTINUE s1)) (results lg)"
      and eq: "\<And>tr. accept_children acc' cs TRAVERSE_CONTINUE (s1, tr) =
                 (fst (accept_children acc cs TRAVERSE_CONTINUE s1),
                  (snd (accept_children acc cs TRAVERSE_CONTINUE s1), tr @ lg))"
      by blast
    obtain res s2 where lp: "accept_children acc cs TRAVERSE_CONTINUE s1 = (res, s2)"
      by (cases "accept_children acc cs TRAVERSE_CONTINUE s1")
    show ?thesis
    proof (cases res)
      case (Inl e)
      with ok lp have e: "e = TRAVERSE_TERMINATE" and ne: "results lg \<noteq> []"
        and l: "last (results lg) = TRAVERSE_TERMINATE"
        and bl: "TRAVERSE_TERMINATE \<notin> set (butlast (results lg))"
        by (auto simp: loop_trace_ok_def)
      from ne l have "TRAVERSE_TERMINATE \<in> set (results lg)"
        using last_in_set by metis
      with e ne l bl have "trace_ok e (results ((VisitPre a, TRAVERSE_CONTINUE) # lg))"
        by (auto simp: trace_ok_def results_def)
      then show ?thesis
        using pre tpre True lp eq Inl
        by (intro exI[of _ "(VisitPre a, TRAVERSE_CONTINUE) # lg"]) (simp add: accept_impl_def)
    next
      case (Inr r')
      obtain rp s3 where post: "visitPost v a s2 = (rp, s3)" by (cases "visitPost v a s2")
      then have tpost: "\<And>tr. visitPost (traced v) a (s2, tr) = (rp, (s3, tr @ [(VisitPost a, rp)]))"
        by (simp add: traced_def)
      let ?lg = "(VisitPre a, TRAVERSE_CONTINUE) # lg @ [(VisitPost a, rp)]"
      from ok lp Inr have nt: "TRAVERSE_TERMINATE \<notin> set (results lg)"
        and r': "r' = (if TRAVERSE_PRUNE \<in> set (results lg) then TRAVERSE_PRUNE else TRAVERSE_CONTINUE)"
        by (auto simp: loop_trace_ok_def)
      have cont: "r' = TRAVERSE_CONTINUE \<Longrightarrow> set (results lg) \<subseteq> {TRAVERSE_CONTINUE}"
      proof
        fix x assume "r' = TRAVERSE_CONTINUE" and "x \<in> set (results lg)"
        with nt r' show "x \<in> {TRAVERSE_CONTINUE}"
          by (cases x) (auto split: if_splits)
      qed
      have res_eq: "fst (accept_impl v acc a cs s) =
          (case rp of TRAVERSE_TERMINATE \<Rightarrow> TRAVERSE_TERMINATE | TRAVERSE_PRUNE \<Rightarrow> TRAVERSE_PRUNE
           | TRAVERSE_CONTINUE \<Rightarrow> r')"
        using pre True lp Inr post by (simp add: accept_impl_def split: VisitorResult.splits)
      have "trace_ok (fst (accept_impl v acc a cs s)) (results ?lg)"
        unfolding res_eq using nt r' cont
        by (cases rp) (auto simp: trace_ok_def results_def butlast_append split: if_splits)
      moreover have "\<forall>tr. accept_impl (traced v) acc' a cs (s, tr) =
                   (fst (accept_impl v acc a cs s), (snd (accept_impl v acc a cs s), tr @ ?lg))"
        using pre tpre True lp eq Inr post tpost
        by (simp add: accept_impl_def split: VisitorResult.splits)
      ultimately show ?thesis by blast
    qed
  qed
qed

lemma accept_traced:
  "child_traced (accept v) (accept (traced v)) t"
proof (induction t)
  case (Entity a cs)
  then have "\<forall>c \<in> set cs. child_traced (accept v) (accept (traced v)) c" by simp
  from accept_impl_traced[OF this, of v a]
  show ?case unfolding child_traced_def by simp
qed

lemma accept_trace:
  assumes "accept (traced v) t (s, []) = (r, (s', lg))"
  shows "accept v t s = (r, s') \<and> trace_ok r (results lg)"
proof -
  from accept_traced[of v t] obtain lg' where
    ok: "trace_ok (fst (accept v t s)) (results lg')" and
    eq: "accept (traced v) t (s, []) = (fst (accept v t s), (snd (accept v t s), [] @ lg'))"
    unfolding child_traced_def by blast
  with assms show ?thesis by (cases "accept v t s") auto
qed


lemma accept_children_append:
  assumes "accept_children acc pre r0 s = (Inr r1, s1)"
  shows "accept_children acc (pre @ post) r0 s = accept_children acc post r1 s1"
  using assms
proof (induction pre arbitrary: r0 s)
  case Nil
  then show ?case by simp
next
  case (Cons c pre)
  obtain r t where c: "acc c s = (r, t)" by (cases "acc c s")
  with Cons show ?case by (cases r) auto
qed

lemma accept_children_prune_result:
  assumes "accept_children acc cs TRAVERSE_PRUNE s = (Inr r, s')"
  shows "r = TRAVERSE_PRUNE"
  using assms
proof (induction cs arbitrary: s)
  case Nil
  then show ?case by simp
next
  case (Cons c cs)
  obtain q t where c: "acc c s = (q, t)" by (cases "acc c s")
  with Cons show ?case by (cases q) auto
qed

lemma accept_children_early:
  assumes "accept_children acc cs r0 s = (Inl r, s')"
  shows "r = TRAVERSE_TERMINATE"
  using assms
proof (induction cs arbitrary: s r0)
  case Nil
  then show ?case by simp
next
  case (Cons c cs)
  obtain q t where c: "acc c s = (q, t)" by (cases "acc c s")
  with Cons show ?case by (cases q) auto
qed

text \<open>
  Claim C1. Run any visitor over any tree, recording the callbacks. The recording changes
  neither the result nor the visitor's state. The accept of the tree returns
  \<open>TRAVERSE_TERMINATE\<close> exactly when some callback of the traversal returned it, and a
  callback that returned \<open>TRAVERSE_TERMINATE\<close> is the last callback the traversal ran: no
  pending sibling, at whatever enclosing level, and no \<open>visitPost\<close> is visited after it.
  Every enclosing accept is itself the accept of a subtree, so each of them returns
  \<open>TRAVERSE_TERMINATE\<close> as well.
\<close>

theorem accept_terminate:
  assumes "accept (traced v) t (s, []) = (r, (s', lg))"
  shows "accept v t s = (r, s') \<and>
         (r = TRAVERSE_TERMINATE \<longleftrightarrow> TRAVERSE_TERMINATE \<in> set (results lg)) \<and>
         (\<forall>i < length lg. snd (lg ! i) = TRAVERSE_TERMINATE \<longrightarrow> Suc i = length lg)"
proof -
  from accept_trace[OF assms] have run: "accept v t s = (r, s')"
    and ok: "trace_ok r (results lg)" by simp_all
  from ok have ne: "results lg \<noteq> []"
    and bl: "TRAVERSE_TERMINATE \<notin> set (butlast (results lg))"
    and l: "r = TRAVERSE_TERMINATE \<longleftrightarrow> last (results lg) = TRAVERSE_TERMINATE"
    by (simp_all add: trace_ok_def)
  have "r = TRAVERSE_TERMINATE \<longleftrightarrow> TRAVERSE_TERMINATE \<in> set (results lg)"
  proof
    assume "r = TRAVERSE_TERMINATE"
    with l ne show "TRAVERSE_TERMINATE \<in> set (results lg)"
      using last_in_set by metis
  next
    assume "TRAVERSE_TERMINATE \<in> set (results lg)"
    with ok show "r = TRAVERSE_TERMINATE"
      using trace_ok_no_term by blast
  qed
  moreover have "\<forall>i < length lg. snd (lg ! i) = TRAVERSE_TERMINATE \<longrightarrow> Suc i = length lg"
  proof (intro allI impI)
    fix i assume i: "i < length lg" and t: "snd (lg ! i) = TRAVERSE_TERMINATE"
    show "Suc i = length lg"
    proof (rule ccontr)
      assume "Suc i \<noteq> length lg"
      with i have "i < length (butlast (results lg))" by (simp add: results_def)
      moreover from this i t have "butlast (results lg) ! i = TRAVERSE_TERMINATE"
        by (simp add: nth_butlast results_def)
      ultimately have "TRAVERSE_TERMINATE \<in> set (butlast (results lg))"
        using nth_mem by metis
      with bl show False by simp
    qed
  qed
  ultimately show ?thesis using run by simp
qed

text \<open>
  Witness for C1: the visitor terminates at entity 2; its child 4 and its sibling 3 are
  never visited, and no \<open>visitPost\<close> runs.
\<close>

theorem accept_terminate_witness:
  "accept (traced (terminate_at 2)) (Entity 1 [Entity 2 [Entity 4 []], Entity 3 []]) (0, []) =
     (TRAVERSE_TERMINATE, (2, [(VisitPre 1, TRAVERSE_CONTINUE), (VisitPre 2, TRAVERSE_TERMINATE)])) \<and>
   accept (terminate_at 2) (Entity 1 [Entity 2 [Entity 4 []], Entity 3 []]) 0 = (TRAVERSE_TERMINATE, 2)"
proof -
  have run: "accept (traced (terminate_at 2)) (Entity 1 [Entity 2 [Entity 4 []], Entity 3 []]) (0, []) =
     (TRAVERSE_TERMINATE, (2, [(VisitPre 1, TRAVERSE_CONTINUE), (VisitPre 2, TRAVERSE_TERMINATE)]))"
    by (simp add: accept_impl_def traced_def terminate_at_def)
  from accept_terminate[OF run] show ?thesis using run by simp
qed

text \<open>
  Claim C2, as amended. (1) A node whose \<open>visitPre\<close> returns \<open>TRAVERSE_PRUNE\<close> returns it
  at once: its children and its \<open>visitPost\<close> are skipped. (2) When a child's accept returns
  \<open>TRAVERSE_PRUNE\<close>, the loop goes on with the remaining siblings in order, from the state
  the pruned child left, then runs \<open>visitPost\<close>; the level returns \<open>TRAVERSE_PRUNE\<close> unless
  a later sibling or \<open>visitPost\<close> returns \<open>TRAVERSE_TERMINATE\<close>. (3) The value travels on:
  the accept of a whole tree returns \<open>TRAVERSE_PRUNE\<close> exactly when some callback anywhere
  in the traversal returned it and none returned \<open>TRAVERSE_TERMINATE\<close>. So the return value
  \<open>TRAVERSE_PRUNE\<close> reaches every enclosing level, but it never ends the traversal of any.
\<close>

theorem accept_prune:
  "(\<forall>s s1. visitPre v a s = (TRAVERSE_PRUNE, s1) \<longrightarrow>
       accept v (Entity a cs) s = (TRAVERSE_PRUNE, s1)) \<and>
   (\<forall>s s0 s1 s2 r1.
       visitPre v a s = (TRAVERSE_CONTINUE, s0) \<and>
       accept_children acc pre TRAVERSE_CONTINUE s0 = (Inr r1, s1) \<and>
       acc c s1 = (TRAVERSE_PRUNE, s2) \<longrightarrow>
       accept_impl v acc a (pre @ c # post) s =
         (case accept_children acc post TRAVERSE_PRUNE s2 of
            (Inl r, s3) \<Rightarrow> (TRAVERSE_TERMINATE, s3)
          | (Inr r, s3) \<Rightarrow>
              (case visitPost v a s3 of
                 (TRAVERSE_TERMINATE, s4) \<Rightarrow> (TRAVERSE_TERMINATE, s4)
               | (TRAVERSE_PRUNE, s4) \<Rightarrow> (TRAVERSE_PRUNE, s4)
               | (TRAVERSE_CONTINUE, s4) \<Rightarrow> (TRAVERSE_PRUNE, s4)))) \<and>
   (\<forall>s s' r lg. accept (traced v) t (s, []) = (r, (s', lg)) \<longrightarrow>
       (r = TRAVERSE_PRUNE \<longleftrightarrow>
          TRAVERSE_PRUNE \<in> set (results lg) \<and> TRAVERSE_TERMINATE \<notin> set (results lg)))"
proof (intro conjI allI impI)
  fix s s1 assume "visitPre v a s = (TRAVERSE_PRUNE, s1)"
  then show "accept v (Entity a cs) s = (TRAVERSE_PRUNE, s1)"
    by (simp add: accept_impl_def)
next
  fix s s0 s1 s2 r1
  assume h: "visitPre v a s = (TRAVERSE_CONTINUE, s0) \<and>
       accept_children acc pre TRAVERSE_CONTINUE s0 = (Inr r1, s1) \<and>
       acc c s1 = (TRAVERSE_PRUNE, s2)"
  then have "accept_children acc (pre @ c # post) TRAVERSE_CONTINUE s0 =
      accept_children acc (c # post) r1 s1"
    by (simp add: accept_children_append)
  also have "\<dots> = accept_children acc post TRAVERSE_PRUNE s2"
    using h by simp
  finally have loop: "accept_children acc (pre @ c # post) TRAVERSE_CONTINUE s0 =
      accept_children acc post TRAVERSE_PRUNE s2" .
  obtain res s3 where rest: "accept_children acc post TRAVERSE_PRUNE s2 = (res, s3)"
    by (cases "accept_children acc post TRAVERSE_PRUNE s2")
  show "accept_impl v acc a (pre @ c # post) s =
         (case accept_children acc post TRAVERSE_PRUNE s2 of
            (Inl r, s3) \<Rightarrow> (TRAVERSE_TERMINATE, s3)
          | (Inr r, s3) \<Rightarrow>
              (case visitPost v a s3 of
                 (TRAVERSE_TERMINATE, s4) \<Rightarrow> (TRAVERSE_TERMINATE, s4)
               | (TRAVERSE_PRUNE, s4) \<Rightarrow> (TRAVERSE_PRUNE, s4)
               | (TRAVERSE_CONTINUE, s4) \<Rightarrow> (TRAVERSE_PRUNE, s4)))"
  proof (cases res)
    case (Inl e)
    with rest have "e = TRAVERSE_TERMINATE" using accept_children_early by metis
    with h loop rest Inl show ?thesis by (simp add: accept_impl_def)
  next
    case (Inr e)
    with rest have "e = TRAVERSE_PRUNE" using accept_children_prune_result by metis
    with h loop rest Inr show ?thesis
      by (simp add: accept_impl_def split: prod.splits VisitorResult.splits)
  qed
next
  fix s s' r lg
  assume "accept (traced v) t (s, []) = (r, (s', lg))"
  from accept_trace[OF this] have ok: "trace_ok r (results lg)" by simp
  show "r = TRAVERSE_PRUNE \<longleftrightarrow>
          TRAVERSE_PRUNE \<in> set (results lg) \<and> TRAVERSE_TERMINATE \<notin> set (results lg)"
  proof (cases r)
    case TRAVERSE_CONTINUE
    with ok have "set (results lg) = {TRAVERSE_CONTINUE}" by (simp add: trace_ok_continue)
    with TRAVERSE_CONTINUE show ?thesis by simp
  next
    case TRAVERSE_TERMINATE
    with ok have "last (results lg) = TRAVERSE_TERMINATE" and "results lg \<noteq> []"
      by (simp_all add: trace_ok_def)
    then have "TRAVERSE_TERMINATE \<in> set (results lg)" using last_in_set by metis
    with TRAVERSE_TERMINATE show ?thesis by simp
  next
    case TRAVERSE_PRUNE
    with ok show ?thesis using trace_ok_prune trace_ok_no_term by blast
  qed
qed

text \<open>
  Counterexample to C2 as stated (\<open>TRAVERSE_PRUNE\<close> would not propagate past one level):
  in a chain of three entities the only callback that returns \<open>TRAVERSE_PRUNE\<close> is the
  \<open>visitPre\<close> of entity 2. The accept of entity 1 returns \<open>TRAVERSE_PRUNE\<close> for it, and so
  does, one level further up, the accept of entity 0. (The accept of entity 1 returns
  \<open>TRAVERSE_PRUNE\<close> although its descendant has been visited.)
\<close>

theorem accept_prune_counterexample:
  "accept (traced (prune_at 2)) (Entity 0 [Entity 1 [Entity 2 []]]) (0, []) =
     (TRAVERSE_PRUNE,
      (5, [(VisitPre 0, TRAVERSE_CONTINUE), (VisitPre 1, TRAVERSE_CONTINUE),
           (VisitPre 2, TRAVERSE_PRUNE),
           (VisitPost 1, TRAVERSE_CONTINUE), (VisitPost 0, TRAVERSE_CONTINUE)]))"
  by (simp add: accept_impl_def traced_def prune_at_def)


text \<open>
  Witness for C2: entity 2 is pruned; its child 4 is skipped, its sibling 3 is visited.
\<close>

theorem accept_prune_witness:
  "accept (prune_at 2) (Entity 2 [Entity 4 []]) 1 = (TRAVERSE_PRUNE, 2) \<and>
   accept_impl (prune_at 2) (accept (prune_at 2)) 1
       ([Entity 5 []] @ Entity 2 [Entity 4 []] # [Entity 3 []]) 0 = (TRAVERSE_PRUNE, 7) \<and>
   accept (traced (prune_at 2)) (Entity 1 [Entity 2 [Entity 4 []], Entity 3 []]) (0, []) =
     (TRAVERSE_PRUNE,
      (5, [(VisitPre 1, TRAVERSE_CONTINUE), (VisitPre 2, TRAVERSE_PRUNE),
           (VisitPre 3, TRAVERSE_CONTINUE), (VisitPost 3, TRAVERSE_CONTINUE),
           (VisitPost 1, TRAVERSE_CONTINUE)])) \<and>
   TRAVERSE_PRUNE \<in> set (results
      [(VisitPre (1::nat), TRAVERSE_CONTINUE), (VisitPre 2, TRAVERSE_PRUNE),
       (VisitPre 3, TRAVERSE_CONTINUE), (VisitPost 3, TRAVERSE_CONTINUE),
       (VisitPost 1, TRAVERSE_CONTINUE)]) \<and>
   TRAVERSE_TERMINATE \<notin> set (results
      [(VisitPre (1::nat), TRAVERSE_CONTINUE), (VisitPre 2, TRAVERSE_PRUNE),
       (VisitPre 3, TRAVERSE_CONTINUE), (VisitPost 3, TRAVERSE_CONTINUE),
       (VisitPost 1, TRAVERSE_CONTINUE)])"
proof -
  have pre2: "visitPre (prune_at 2) 2 1 = (TRAVERSE_PRUNE, 2)"
    by (simp add: prune_at_def)
  have pre1: "visitPre (prune_at 2) 1 0 = (TRAVERSE_CONTINUE, 1)"
    by (simp add: prune_at_def)
  have before: "accept_children (accept (prune_at 2)) [Entity 5 []] TRAVERSE_CONTINUE 1 =
      (Inr TRAVERSE_CONTINUE, 3)"
    by (simp add: accept_impl_def prune_at_def)
  have child: "accept (prune_at 2) (Entity 2 [Entity 4 []]) 3 = (TRAVERSE_PRUNE, 4)"
    by (simp add: accept_impl_def prune_at_def)
  have run: "accept (traced (prune_at 2)) (Entity 1 [Entity 2 [Entity 4 []], Entity 3 []]) (0, []) =
     (TRAVERSE_PRUNE,
      (5, [(VisitPre 1, TRAVERSE_CONTINUE), (VisitPre 2, TRAVERSE_PRUNE),
           (VisitPre 3, TRAVERSE_CONTINUE), (VisitPost 3, TRAVERSE_CONTINUE),
           (VisitPost 1, TRAVERSE_CONTINUE)]))"
    by (simp add: accept_impl_def traced_def prune_at_def)
  note inst = accept_prune[where v = "prune_at 2" and acc = "accept (prune_at 2)"
      and pre = "[Entity 5 []]" and c = "Entity 2 [Entity 4 []]" and post = "[Entity 3 []]"
      and cs = "[Entity 4 []]"]
  from inst[where a = 2] pre2
  have "accept (prune_at 2) (Entity 2 [Entity 4 []]) 1 = (TRAVERSE_PRUNE, 2)"
    by blast
  moreover from inst[where a = 1] pre1 before child
  have "accept_impl (prune_at 2) (accept (prune_at 2)) 1
       ([Entity 5 []] @ Entity 2 [Entity 4 []] # [Entity 3 []]) 0 =
      (case accept_children (accept (prune_at 2)) [Entity 3 []] TRAVERSE_PRUNE 4 of
            (Inl r, s3) \<Rightarrow> (TRAVERSE_TERMINATE, s3)
          | (Inr r, s3) \<Rightarrow>
              (case visitPost (prune_at 2) 1 s3 of
                 (TRAVERSE_TERMINATE, s4) \<Rightarrow> (TRAVERSE_TERMINATE, s4)
               | (TRAVERSE_PRUNE, s4) \<Rightarrow> (TRAVERSE_PRUNE, s4)
               | (TRAVERSE_CONTINUE, s4) \<Rightarrow> (TRAVERSE_PRUNE, s4)))"
    by blast
  then have "accept_impl (prune_at 2) (accept (prune_at 2)) 1
       ([Entity 5 []] @ Entity 2 [Entity 4 []] # [Entity 3 []]) 0 = (TRAVERSE_PRUNE, 7)"
    by (simp add: accept_impl_def prune_at_def)
  moreover from inst[where t = "Entity 1 [Entity 2 [Entity 4 []], Entity 3 []]"]
  have "\<forall>s s' r lg.
      accept (traced (prune_at 2)) (Entity 1 [Entity 2 [Entity 4 []], Entity 3 []]) (s, []) =
        (r, (s', lg)) \<longrightarrow>
      (r = TRAVERSE_PRUNE \<longleftrightarrow>
         TRAVERSE_PRUNE \<in> set (results lg) \<and> TRAVERSE_TERMINATE \<notin> set (results lg))"
    by (rule conjunct2[OF conjunct2])
  from this[rule_format, OF run]
  have "TRAVERSE_PRUNE \<in> set (results
      [(VisitPre (1::nat), TRAVERSE_CONTINUE), (VisitPre 2, TRAVERSE_PRUNE),
       (VisitPre 3, TRAVERSE_CONTINUE), (VisitPost 3, TRAVERSE_CONTINUE),
       (VisitPost 1, TRAVERSE_CONTINUE)]) \<and>
   TRAVERSE_TERMINATE \<notin> set (results
      [(VisitPre (1::nat), TRAVERSE_CONTINUE), (VisitPre 2, TRAVERSE_PRUNE),
       (VisitPre 3, TRAVERSE_CONTINUE), (VisitPost 3, TRAVERSE_CONTINUE),
       (VisitPost 1, TRAVERSE_CONTINUE)])"
    by (rule iffD1) (rule refl)
  ultimately show ?thesis using run by (intro conjI) simp_all
qed

section \<open>Properties of the frame update\<close>

lemma visit_all_append:
  "visit_all ops f (xs @ ys) w =
     (case visit_all ops f xs w of Inl e \<Rightarrow> Inl e | Inr w' \<Rightarrow> visit_all ops f ys w')"
  by (induction xs arbitrary: w) (auto split: sum.splits)

lemma visit_result:
  assumes "visit ops f c w = Inr (r, w')"
  shows "r = TRAVERSE_CONTINUE"
  using assms by (auto simp: visit_def Let_def split: sum.splits)

lemma accept_children_updateData:
  assumes "\<And>c w. c \<in> set cs \<Longrightarrow>
      accept (updateDataVisitor ops f) c (Inr w) =
        (case visit_all ops f (preorder c) w of
           Inl e \<Rightarrow> (TRAVERSE_TERMINATE, Inl e)
         | Inr w' \<Rightarrow> (TRAVERSE_CONTINUE, Inr w'))"
  shows "accept_children (accept (updateDataVisitor ops f)) cs r0 (Inr w) =
        (case visit_all ops f (concat (map preorder cs)) w of
           Inl e \<Rightarrow> (Inl TRAVERSE_TERMINATE, Inl e)
         | Inr w' \<Rightarrow> (Inr r0, Inr w'))"
  using assms
proof (induction cs arbitrary: w)
  case Nil
  then show ?case by simp
next
  case (Cons c cs)
  have c: "accept (updateDataVisitor ops f) c (Inr w) =
        (case visit_all ops f (preorder c) w of
           Inl e \<Rightarrow> (TRAVERSE_TERMINATE, Inl e)
         | Inr w' \<Rightarrow> (TRAVERSE_CONTINUE, Inr w'))"
    using Cons.prems by simp
  show ?case
  proof (cases "visit_all ops f (preorder c) w")
    case (Inl e)
    with c show ?thesis by (simp add: visit_all_append)
  next
    case (Inr w1)
    have "accept_children (accept (updateDataVisitor ops f)) cs r0 (Inr w1) =
        (case visit_all ops f (concat (map preorder cs)) w1 of
           Inl e \<Rightarrow> (Inl TRAVERSE_TERMINATE, Inl e)
         | Inr w' \<Rightarrow> (Inr r0, Inr w'))"
      using Cons.IH[of w1] Cons.prems by simp
    with c Inr show ?thesis by (simp add: visit_all_append)
  qed
qed

lemma accept_updateData:
  "accept (updateDataVisitor ops f) t (Inr w) =
     (case visit_all ops f (preorder t) w of
        Inl e \<Rightarrow> (TRAVERSE_TERMINATE, Inl e)
      | Inr w' \<Rightarrow> (TRAVERSE_CONTINUE, Inr w'))"
proof (induction t arbitrary: w)
  case (Entity a cs)
  have loop: "accept_children (accept (updateDataVisitor ops f)) cs r0 (Inr w1) =
        (case visit_all ops f (concat (map preorder cs)) w1 of
           Inl e \<Rightarrow> (Inl TRAVERSE_TERMINATE, Inl e)
         | Inr w' \<Rightarrow> (Inr r0, Inr w'))" for r0 w1
    using Entity.IH by (intro accept_children_updateData) simp
  show ?case
  proof (cases "visit ops f a w")
    case (Inl e)
    then show ?thesis by (simp add: accept_impl_def updateDataVisitor_def)
  next
    case (Inr rw)
    obtain r w1 where rw: "rw = (r, w1)" by (cases rw)
    with Inr have r: "r = TRAVERSE_CONTINUE" using visit_result by metis
    have pre: "visitPre (updateDataVisitor ops f) a (Inr w) = (TRAVERSE_CONTINUE, Inr w1)"
      using Inr rw r by (simp add: updateDataVisitor_def)
    have post: "visitPost (updateDataVisitor ops f) a st = (TRAVERSE_CONTINUE, st)" for st
      by (simp add: updateDataVisitor_def)
    show ?thesis
      using Inr rw pre post loop[of TRAVERSE_CONTINUE w1]
      by (cases "visit_all ops f (concat (map preorder cs)) w1") (simp_all add: accept_impl_def)
  qed
qed


lemma lastDrawOf_Nil: "lastDrawOf p [] = None"
  by (simp add: lastDrawOf_def)

lemma lastDrawOf_append:
  "lastDrawOf p (xs @ ys) =
     (case lastDrawOf p ys of None \<Rightarrow> lastDrawOf p xs | Some c \<Rightarrow> Some c)"
proof (cases "filter (\<lambda>d. snd d = Some p) ys")
  case Nil
  then show ?thesis by (simp add: lastDrawOf_def)
next
  case (Cons d ds)
  then show ?thesis
    by (cases "filter (\<lambda>d. snd d = Some p) xs") (simp_all add: lastDrawOf_def)
qed

lemma lastDrawOf_single:
  "lastDrawOf p [(c, q)] = (if q = Some p then Some c else None)"
  by (simp add: lastDrawOf_def)

lemma visit_skip:
  assumes "x' = updateInheritData ops c f (fireUpdatePre ops c f (compounds w))"
    and "\<not> testInheritTask ops c (TASK_DRAW ops) x' \<or> \<not> isActive ops c x'"
  shows "visit ops f c w = Inr (TRAVERSE_CONTINUE, w\<lparr>compounds := x'\<rparr>)"
  using assms by (auto simp: visit_def updateDrawFinish_def Let_def)

lemma visit_draw:
  assumes "x' = updateInheritData ops c f (fireUpdatePre ops c f (compounds w))"
    and "testInheritTask ops c (TASK_DRAW ops) x'" and "isActive ops c x'"
  shows "visit ops f c w =
     (case getChannel ops c x' of
        None \<Rightarrow> Inl NullDereference
      | Some p \<Rightarrow>
          (case channels w p of
             None \<Rightarrow> Inl InvalidPointer
           | Some ch \<Rightarrow>
               Inr (TRAVERSE_CONTINUE,
                    \<lparr>compounds = x',
                     channels = (channels w)(p \<mapsto> ch\<lparr>lastDrawCompound := Some c\<rparr>)\<rparr>)))"
  using assms
  by (auto simp: visit_def updateDrawFinish_def setLastDrawCompound_def Let_def
      split: option.splits)

lemma visit_all_channels:
  assumes "visit_all ops f cs w = Inr w'" and "channels w p = Some ch"
  shows "channels w' p =
     Some (ch\<lparr>lastDrawCompound :=
        (case lastDrawOf p (drawCompounds ops f cs (compounds w)) of
           None \<Rightarrow> lastDrawCompound ch
         | Some c \<Rightarrow> Some c)\<rparr>)"
  using assms
proof (induction cs arbitrary: w ch)
  case Nil
  then show ?case by (simp add: lastDrawOf_Nil)
next
  case (Cons c cs)
  define x' where "x' = updateInheritData ops c f (fireUpdatePre ops c f (compounds w))"
  show ?case
  proof (cases "testInheritTask ops c (TASK_DRAW ops) x' \<and> isActive ops c x'")
    case False
    then have v: "visit ops f c w = Inr (TRAVERSE_CONTINUE, w\<lparr>compounds := x'\<rparr>)"
      using visit_skip[OF x'_def] by blast
    with Cons.prems have rest: "visit_all ops f cs (w\<lparr>compounds := x'\<rparr>) = Inr w'" by simp
    have ds: "drawCompounds ops f (c # cs) (compounds w) = drawCompounds ops f cs x'"
      using False by (simp add: x'_def Let_def)
    from Cons.IH[OF rest, of ch] Cons.prems(2) show ?thesis
      unfolding ds by simp
  next
    case True
    then have t: "testInheritTask ops c (TASK_DRAW ops) x'" and a: "isActive ops c x'"
      by simp_all
    note v = visit_draw[OF x'_def t a]
    from Cons.prems(1) v obtain q chq where q: "getChannel ops c x' = Some q"
      and chq: "channels w q = Some chq"
      by (auto split: option.splits sum.splits)
    let ?w1 = "\<lparr>compounds = x', channels = (channels w)(q \<mapsto> chq\<lparr>lastDrawCompound := Some c\<rparr>)\<rparr>"
    from v q chq have v1: "visit ops f c w = Inr (TRAVERSE_CONTINUE, ?w1)" by simp
    with Cons.prems have rest: "visit_all ops f cs ?w1 = Inr w'" by simp
    have ds: "drawCompounds ops f (c # cs) (compounds w) =
        [(c, Some q)] @ drawCompounds ops f cs x'"
      using True q by (simp add: x'_def Let_def)
    show ?thesis
    proof (cases "q = p")
      case True
      with chq Cons.prems(2) have "chq = ch" by simp
      with True have "channels ?w1 p = Some (ch\<lparr>lastDrawCompound := Some c\<rparr>)" by simp
      from Cons.IH[OF rest this] True show ?thesis
        unfolding ds lastDrawOf_append
        by (simp add: lastDrawOf_single split: option.splits)
    next
      case False
      with Cons.prems(2) have "channels ?w1 p = Some ch" by simp
      from Cons.IH[OF rest this] False show ?thesis
        unfolding ds lastDrawOf_append
        by (simp add: lastDrawOf_single split: option.splits)
    qed
  qed
qed

lemma visit_all_dom:
  assumes "visit_all ops f cs w = Inr w'"
  shows "dom (channels w') = dom (channels w)"
proof
  show "dom (channels w') \<subseteq> dom (channels w)"
  proof
    fix p assume "p \<in> dom (channels w')"
    show "p \<in> dom (channels w)"
    proof (rule ccontr)
      assume "p \<notin> dom (channels w)"
      then have "channels w p = None" by auto
      have "channels w' p = None"
        using assms \<open>channels w p = None\<close>
      proof (induction cs arbitrary: w)
        case Nil
        then show ?case by simp
      next
        case (Cons c cs)
        define x' where "x' = updateInheritData ops c f (fireUpdatePre ops c f (compounds w))"
        show ?case
        proof (cases "testInheritTask ops c (TASK_DRAW ops) x' \<and> isActive ops c x'")
          case False
          then have "visit ops f c w = Inr (TRAVERSE_CONTINUE, w\<lparr>compounds := x'\<rparr>)"
            using visit_skip[OF x'_def] by blast
          with Cons.prems Cons.IH[of "w\<lparr>compounds := x'\<rparr>"] show ?thesis by simp
        next
          case True
          then have t: "testInheritTask ops c (TASK_DRAW ops) x'" and a: "isActive ops c x'"
            by simp_all
          note v = visit_draw[OF x'_def t a]
          from Cons.prems(1) v obtain q chq where q: "getChannel ops c x' = Some q"
            and chq: "channels w q = Some chq"
            by (auto split: option.splits sum.splits)
          let ?w1 = "\<lparr>compounds = x', channels = (channels w)(q \<mapsto> chq\<lparr>lastDrawCompound := Some c\<rparr>)\<rparr>"
          from v q chq have v1: "visit ops f c w = Inr (TRAVERSE_CONTINUE, ?w1)" by simp
          with Cons.prems have rest: "visit_all ops f cs ?w1 = Inr w'" by simp
          from chq Cons.prems(2) have "q \<noteq> p" by auto
          then have "channels ?w1 p = None" using Cons.prems(2) by simp
          from Cons.IH[OF rest this] show ?thesis .
        qed
      qed
      with \<open>p \<in> dom (channels w')\<close> show False by auto
    qed
  qed
next
  show "dom (channels w) \<subseteq> dom (channels w')"
  proof
    fix p assume "p \<in> dom (channels w)"
    then obtain ch where "channels w p = Some ch" by auto
    from visit_all_channels[OF assms this] show "p \<in> dom (channels w')" by auto
  qed
qed

lemma visit_all_total:
  assumes "\<forall>d \<in> set (drawCompounds ops f cs (compounds w)).
             \<exists>p. snd d = Some p \<and> p \<in> dom (channels w)"
  shows "\<exists>w'. visit_all ops f cs w = Inr w'"
  using assms
proof (induction cs arbitrary: w)
  case Nil
  then show ?case by simp
next
  case (Cons c cs)
  define x' where "x' = updateInheritData ops c f (fireUpdatePre ops c f (compounds w))"
  show ?case
  proof (cases "testInheritTask ops c (TASK_DRAW ops) x' \<and> isActive ops c x'")
    case False
    then have v: "visit ops f c w = Inr (TRAVERSE_CONTINUE, w\<lparr>compounds := x'\<rparr>)"
      using visit_skip[OF x'_def] by blast
    have ds: "drawCompounds ops f (c # cs) (compounds w) = drawCompounds ops f cs x'"
      using False by (simp add: x'_def Let_def)
    from Cons.prems have "\<forall>d \<in> set (drawCompounds ops f cs (compounds (w\<lparr>compounds := x'\<rparr>))).
             \<exists>p. snd d = Some p \<and> p \<in> dom (channels (w\<lparr>compounds := x'\<rparr>))"
      unfolding ds by simp
    from Cons.IH[OF this] v show ?thesis by simp
  next
    case True
    then have t: "testInheritTask ops c (TASK_DRAW ops) x'" and a: "isActive ops c x'"
      by simp_all
    have ds: "drawCompounds ops f (c # cs) (compounds w) =
        [(c, getChannel ops c x')] @ drawCompounds ops f cs x'"
      using True by (simp add: x'_def Let_def)
    from Cons.prems obtain q chq where q: "getChannel ops c x' = Some q"
      and chq: "channels w q = Some chq"
      unfolding ds by auto
    let ?w1 = "\<lparr>compounds = x', channels = (channels w)(q \<mapsto> chq\<lparr>lastDrawCompound := Some c\<rparr>)\<rparr>"
    from visit_draw[OF x'_def t a] q chq
    have v1: "visit ops f c w = Inr (TRAVERSE_CONTINUE, ?w1)" by simp
    from Cons.prems have "\<forall>d \<in> set (drawCompounds ops f cs (compounds ?w1)).
             \<exists>p. snd d = Some p \<and> p \<in> dom (channels ?w1)"
      unfolding ds by auto
    from Cons.IH[OF this] v1 show ?thesis by simp
  qed
qed

lemma demo_draw:
  "drawCompounds demo_ops 9 (preorder demo_tree) (compounds demo_world) = [(1, Some 7), (2, Some 7)]"
  by (simp add: demo_ops_def demo_tree_def demo_world_def demo_tasks_def demo_parent_def Let_def)

text \<open>
  Claim C3. (1) For a compound that is active and whose inherited tasks include the draw
  task, the draw-finish step sets the member \<^verbatim>\<open>_lastDrawCompound\<close> of the channel
  the compound refers to to that compound, and \<open>getLastDrawCompound\<close> then returns it;
  nothing else changes. (2) After a pass over the compound tree that ends without a fault,
  the member \<^verbatim>\<open>_lastDrawCompound\<close> of every channel, and what
  \<open>getLastDrawCompound\<close> returns for it, is the last draw participant of the pass, in the
  order of the visits, that refers to the channel; a channel no draw participant refers to
  keeps its value, and no other member of a channel changes. (3) The pass ends without a
  fault when every draw participant refers to a channel that exists.
\<close>

theorem updateData_lastDrawCompound:
  "(testInheritTask ops c (TASK_DRAW ops) (compounds w) \<and> isActive ops c (compounds w) \<and>
      getChannel ops c (compounds w) = Some p \<and> channels w p = Some ch \<longrightarrow>
      updateDrawFinish ops c w =
        Inr (w\<lparr>channels := (channels w)(p \<mapsto> ch\<lparr>lastDrawCompound := Some c\<rparr>)\<rparr>) \<and>
      getLastDrawCompound (ch\<lparr>lastDrawCompound := Some c\<rparr>) = Some c) \<and>
   (\<forall>w'. updateData ops f t w = Inr w' \<and> channels w p = Some ch \<longrightarrow>
      channels w' p =
        Some (ch\<lparr>lastDrawCompound :=
               (case lastDrawOf p (drawCompounds ops f (preorder t) (compounds w)) of
                  None \<Rightarrow> lastDrawCompound ch
                | Some d \<Rightarrow> Some d)\<rparr>) \<and>
      map_option getLastDrawCompound (channels w' p) =
        Some (case lastDrawOf p (drawCompounds ops f (preorder t) (compounds w)) of
                None \<Rightarrow> lastDrawCompound ch
              | Some d \<Rightarrow> Some d)) \<and>
   ((\<forall>d \<in> set (drawCompounds ops f (preorder t) (compounds w)).
        \<exists>q. snd d = Some q \<and> q \<in> dom (channels w)) \<longrightarrow>
      (\<exists>w'. updateData ops f t w = Inr w'))"
proof (intro conjI allI impI)
  assume h: "testInheritTask ops c (TASK_DRAW ops) (compounds w) \<and> isActive ops c (compounds w) \<and>
      getChannel ops c (compounds w) = Some p \<and> channels w p = Some ch"
  then show "updateDrawFinish ops c w =
        Inr (w\<lparr>channels := (channels w)(p \<mapsto> ch\<lparr>lastDrawCompound := Some c\<rparr>)\<rparr>)"
    by (simp add: updateDrawFinish_def setLastDrawCompound_def)
  show "getLastDrawCompound (ch\<lparr>lastDrawCompound := Some c\<rparr>) = Some c"
    by (simp add: getLastDrawCompound_def)
next
  fix w' assume h: "updateData ops f t w = Inr w' \<and> channels w p = Some ch"
  then have "visit_all ops f (preorder t) w = Inr w'"
    by (simp add: updateData_def accept_updateData split: sum.splits)
  from visit_all_channels[OF this, of p ch] h
  show field: "channels w' p =
        Some (ch\<lparr>lastDrawCompound :=
               (case lastDrawOf p (drawCompounds ops f (preorder t) (compounds w)) of
                  None \<Rightarrow> lastDrawCompound ch
                | Some d \<Rightarrow> Some d)\<rparr>)"
    by simp
  then show "map_option getLastDrawCompound (channels w' p) =
        Some (case lastDrawOf p (drawCompounds ops f (preorder t) (compounds w)) of
                None \<Rightarrow> lastDrawCompound ch
              | Some d \<Rightarrow> Some d)"
    by (simp add: getLastDrawCompound_def)
next
  assume "\<forall>d \<in> set (drawCompounds ops f (preorder t) (compounds w)).
        \<exists>q. snd d = Some q \<and> q \<in> dom (channels w)"
  from visit_all_total[OF this] obtain w' where "visit_all ops f (preorder t) w = Inr w'"
    by blast
  then show "\<exists>w'. updateData ops f t w = Inr w'"
    by (simp add: updateData_def accept_updateData)
qed

text \<open>
  Witness for C3: in the pass, compounds 1 and 2 draw on channel 7, and 2 is visited last,
  so channel 7 holds compound 2; channel 8 is not drawn on and keeps compound 5. The
  draw-finish step alone, for compound 1 with the draw task, records compound 1 in
  channel 7.
\<close>

theorem updateData_lastDrawCompound_witness:
  "(\<exists>w'. updateData demo_ops 9 demo_tree demo_world = Inr w' \<and>
      channels w' 7 = Some \<lparr>state = STATE_RUNNING, lastDrawCompound = Some 2\<rparr> \<and>
      map_option getLastDrawCompound (channels w' 7) = Some (Some 2) \<and>
      channels w' 8 = Some \<lparr>state = STATE_RUNNING, lastDrawCompound = Some 5\<rparr>) \<and>
   map_sum id (\<lambda>w. channels w 7) (updateDrawFinish demo_ops 1 demo_drawing) =
      Inr (Some \<lparr>state = STATE_RUNNING, lastDrawCompound = Some 1\<rparr>)"
proof -
  have valid: "\<forall>d \<in> set (drawCompounds demo_ops 9 (preorder demo_tree) (compounds demo_world)).
        \<exists>q. snd d = Some q \<and> q \<in> dom (channels demo_world)"
    unfolding demo_draw by (simp add: demo_world_def)
  then obtain w' where run: "updateData demo_ops 9 demo_tree demo_world = Inr w'"
    using updateData_lastDrawCompound[of demo_ops _ demo_world _ _ 9 demo_tree] by blast
  have c7: "channels demo_world 7 = Some \<lparr>state = STATE_RUNNING, lastDrawCompound = None\<rparr>"
    and c8: "channels demo_world 8 = Some \<lparr>state = STATE_RUNNING, lastDrawCompound = Some 5\<rparr>"
    by (simp_all add: demo_world_def)
  from updateData_lastDrawCompound[of demo_ops _ demo_world 7 _ 9 demo_tree] run c7
  have "channels w' 7 = Some \<lparr>state = STATE_RUNNING, lastDrawCompound = Some 2\<rparr>"
    and "map_option getLastDrawCompound (channels w' 7) = Some (Some 2)"
    unfolding demo_draw by (simp_all add: lastDrawOf_def getLastDrawCompound_def)
  moreover from updateData_lastDrawCompound[of demo_ops _ demo_world 8 _ 9 demo_tree] run c8
  have "channels w' 8 = Some \<lparr>state = STATE_RUNNING, lastDrawCompound = Some 5\<rparr>"
    unfolding demo_draw by (simp add: lastDrawOf_def)
  ultimately have pass: "\<exists>w'. updateData demo_ops 9 demo_tree demo_world = Inr w' \<and>
      channels w' 7 = Some \<lparr>state = STATE_RUNNING, lastDrawCompound = Some 2\<rparr> \<and>
      map_option getLastDrawCompound (channels w' 7) = Some (Some 2) \<and>
      channels w' 8 = Some \<lparr>state = STATE_RUNNING, lastDrawCompound = Some 5\<rparr>"
    using run by simp
  have h: "testInheritTask demo_ops 1 (TASK_DRAW demo_ops) (compounds demo_drawing) \<and>
      isActive demo_ops 1 (compounds demo_drawing) \<and>
      getChannel demo_ops 1 (compounds demo_drawing) = Some 7 \<and>
      channels demo_drawing 7 = Some \<lparr>state = STATE_RUNNING, lastDrawCompound = None\<rparr>"
    by (simp add: demo_ops_def demo_drawing_def demo_world_def)
  from updateData_lastDrawCompound[of demo_ops 1 demo_drawing 7
      "\<lparr>state = STATE_RUNNING, lastDrawCompound = None\<rparr>"]
  have "testInheritTask demo_ops 1 (TASK_DRAW demo_ops) (compounds demo_drawing) \<and>
      isActive demo_ops 1 (compounds demo_drawing) \<and>
      getChannel demo_ops 1 (compounds demo_drawing) = Some 7 \<and>
      channels demo_drawing 7 = Some \<lparr>state = STATE_RUNNING, lastDrawCompound = None\<rparr> \<longrightarrow>
      updateDrawFinish demo_ops 1 demo_drawing =
        Inr (demo_drawing\<lparr>channels := (channels demo_drawing)
               (7 \<mapsto> \<lparr>state = STATE_RUNNING, lastDrawCompound = None\<rparr>\<lparr>lastDrawCompound := Some 1\<rparr>)\<rparr>) \<and>
      getLastDrawCompound (\<lparr>state = STATE_RUNNING, lastDrawCompound = None\<rparr>\<lparr>lastDrawCompound := Some 1\<rparr>) = Some 1"
    by (rule conjunct1)
  from this h have "updateDrawFinish demo_ops 1 demo_drawing =
        Inr (demo_drawing\<lparr>channels := (channels demo_drawing)
               (7 \<mapsto> \<lparr>state = STATE_RUNNING, lastDrawCompound = None\<rparr>\<lparr>lastDrawCompound := Some 1\<rparr>)\<rparr>) \<and>
      getLastDrawCompound (\<lparr>state = STATE_RUNNING, lastDrawCompound = None\<rparr>\<lparr>lastDrawCompound := Some 1\<rparr>) = Some 1"
    by (rule mp)
  then have "map_sum id (\<lambda>w. channels w 7) (updateDrawFinish demo_ops 1 demo_drawing) =
      Inr (Some \<lparr>state = STATE_RUNNING, lastDrawCompound = Some 1\<rparr>)"
    by simp
  with pass show ?thesis by (rule conjI)
qed

text \<open>
  Claim C4. For a compound that is inactive or whose inherited tasks exclude the draw task,
  the draw-finish step returns normally and changes nothing, whatever the compound's
  channel pointer is; the visit of such a compound returns \<open>TRAVERSE_CONTINUE\<close> without a
  fault and leaves every channel as it was.
\<close>

theorem updateDrawFinish_skip:
  "(\<not> testInheritTask ops c (TASK_DRAW ops) (compounds w) \<or> \<not> isActive ops c (compounds w) \<longrightarrow>
      updateDrawFinish ops c w = Inr w) \<and>
   (\<not> testInheritTask ops c (TASK_DRAW ops)
          (updateInheritData ops c f (fireUpdatePre ops c f (compounds w))) \<or>
    \<not> isActive ops c (updateInheritData ops c f (fireUpdatePre ops c f (compounds w))) \<longrightarrow>
      visit ops f c w =
        Inr (TRAVERSE_CONTINUE,
             w\<lparr>compounds := updateInheritData ops c f (fireUpdatePre ops c f (compounds w))\<rparr>))"
proof (intro conjI impI)
  assume "\<not> testInheritTask ops c (TASK_DRAW ops) (compounds w) \<or> \<not> isActive ops c (compounds w)"
  then show "updateDrawFinish ops c w = Inr w"
    by (auto simp: updateDrawFinish_def)
next
  assume "\<not> testInheritTask ops c (TASK_DRAW ops)
          (updateInheritData ops c f (fireUpdatePre ops c f (compounds w))) \<or>
    \<not> isActive ops c (updateInheritData ops c f (fireUpdatePre ops c f (compounds w)))"
  with refl show "visit ops f c w =
        Inr (TRAVERSE_CONTINUE,
             w\<lparr>compounds := updateInheritData ops c f (fireUpdatePre ops c f (compounds w))\<rparr>)"
    by (rule visit_skip)
qed

text \<open>
  Witness for C4: compound 3 is inactive and has a null channel pointer; compound 2 has no
  draw task before its inherited data is computed.
\<close>

theorem updateDrawFinish_skip_witness:
  "updateDrawFinish demo_ops 3 demo_world = Inr demo_world \<and>
   updateDrawFinish demo_ops 2 demo_world = Inr demo_world \<and>
   getChannel demo_ops 3 (compounds demo_world) = None \<and>
   map_sum id (\<lambda>rw. (fst rw, channels (snd rw))) (visit demo_ops 9 3 demo_world) =
     Inr (TRAVERSE_CONTINUE, channels demo_world)"
proof -
  have inactive: "\<not> isActive demo_ops 3 x" for x
    by (simp add: demo_ops_def)
  have nodraw: "\<not> testInheritTask demo_ops 2 (TASK_DRAW demo_ops) (compounds demo_world)"
    by (simp add: demo_ops_def demo_world_def)
  from updateDrawFinish_skip[of demo_ops 3 demo_world 9] inactive
  have "updateDrawFinish demo_ops 3 demo_world = Inr demo_world"
    and "map_sum id (\<lambda>rw. (fst rw, channels (snd rw))) (visit demo_ops 9 3 demo_world) =
     Inr (TRAVERSE_CONTINUE, channels demo_world)"
    by simp_all
  moreover from updateDrawFinish_skip[of demo_ops 2 demo_world 9] nodraw
  have "updateDrawFinish demo_ops 2 demo_world = Inr demo_world"
    by blast
  moreover have "getChannel demo_ops 3 (compounds demo_world) = None"
    by (simp add: demo_ops_def)
  ultimately show ?thesis by simp
qed

lemma updateDrawFinish_compounds:
  assumes "updateDrawFinish ops c w = Inr w'"
  shows "compounds w' = compounds w"
proof (cases "\<not> testInheritTask ops c (TASK_DRAW ops) (compounds w) \<or>
         \<not> isActive ops c (compounds w)")
  case True
  with assms show ?thesis by (simp add: updateDrawFinish_def)
next
  case False
  with assms show ?thesis
    by (cases "getChannel ops c (compounds w)")
       (auto simp: updateDrawFinish_def split: option.splits)
qed

text \<open>
  Claim C6. The visit of a compound notifies the listeners (\<open>fireUpdatePre\<close> with the
  frame number), then computes the inherited data (\<open>updateInheritData\<close>) on the result,
  then runs the draw-finish step on the result of that; when it returns, it returns
  \<open>TRAVERSE_CONTINUE\<close>. So the pass over a compound tree is the visit of each compound,
  once, parent before children, and it returns \<open>TRAVERSE_CONTINUE\<close> unless a fault ended it.
\<close>

theorem visit_order:
  "visit ops f c w =
     (case updateDrawFinish ops c
             (w\<lparr>compounds := updateInheritData ops c f (fireUpdatePre ops c f (compounds w))\<rparr>) of
        Inl e \<Rightarrow> Inl e
      | Inr w' \<Rightarrow> Inr (TRAVERSE_CONTINUE, w')) \<and>
   (\<forall>r w'. visit ops f c w = Inr (r, w') \<longrightarrow>
      r = TRAVERSE_CONTINUE \<and>
      compounds w' = updateInheritData ops c f (fireUpdatePre ops c f (compounds w))) \<and>
   accept (updateDataVisitor ops f) t (Inr w) =
     (case visit_all ops f (preorder t) w of
        Inl e \<Rightarrow> (TRAVERSE_TERMINATE, Inl e)
      | Inr w' \<Rightarrow> (TRAVERSE_CONTINUE, Inr w'))"
proof (intro conjI allI impI)
  show "visit ops f c w =
     (case updateDrawFinish ops c
             (w\<lparr>compounds := updateInheritData ops c f (fireUpdatePre ops c f (compounds w))\<rparr>) of
        Inl e \<Rightarrow> Inl e
      | Inr w' \<Rightarrow> Inr (TRAVERSE_CONTINUE, w'))"
    by (simp add: visit_def Let_def)
next
  fix r w' assume v: "visit ops f c w = Inr (r, w')"
  then show "r = TRAVERSE_CONTINUE" by (rule visit_result)
  from v obtain w2 where "updateDrawFinish ops c
      (w\<lparr>compounds := updateInheritData ops c f (fireUpdatePre ops c f (compounds w))\<rparr>) = Inr w2"
    and "w' = w2"
    by (auto simp: visit_def Let_def split: sum.splits)
  then show "compounds w' = updateInheritData ops c f (fireUpdatePre ops c f (compounds w))"
    using updateDrawFinish_compounds by fastforce
next
  show "accept (updateDataVisitor ops f) t (Inr w) =
     (case visit_all ops f (preorder t) w of
        Inl e \<Rightarrow> (TRAVERSE_TERMINATE, Inl e)
      | Inr w' \<Rightarrow> (TRAVERSE_CONTINUE, Inr w'))"
    by (rule accept_updateData)
qed




text \<open>
  Witness for C6: the calls recorded by a pass over the three compounds at frame 9, and
  those recorded by the visit of compound 1 alone.
\<close>

theorem visit_order_witness:
  "(\<exists>w'. accept (updateDataVisitor demo_ops 9) demo_tree (Inr demo_world) = (TRAVERSE_CONTINUE, Inr w') \<and>
      events (compounds w') =
        [NotifyUpdatePre 1 9, UpdateInheritData 1 9, NotifyUpdatePre 2 9,
         UpdateInheritData 2 9, NotifyUpdatePre 3 9, UpdateInheritData 3 9]) \<and>
   (\<exists>w'. visit demo_ops 9 1 demo_world = Inr (TRAVERSE_CONTINUE, w') \<and>
      events (compounds w') = [NotifyUpdatePre 1 9, UpdateInheritData 1 9])"
proof -
  have pre: "preorder demo_tree = [1, 2, 3]"
    by (simp add: demo_tree_def)
  have run: "\<exists>w'. visit_all demo_ops 9 [1, 2, 3] demo_world = Inr w' \<and>
      events (compounds w') =
        [NotifyUpdatePre 1 9, UpdateInheritData 1 9, NotifyUpdatePre 2 9,
         UpdateInheritData 2 9, NotifyUpdatePre 3 9, UpdateInheritData 3 9]"
    by (simp add: visit_def updateDrawFinish_def setLastDrawCompound_def demo_ops_def
        demo_world_def demo_tasks_def demo_parent_def Let_def)
  then obtain w' where "visit_all demo_ops 9 [1, 2, 3] demo_world = Inr w'"
    and "events (compounds w') =
        [NotifyUpdatePre 1 9, UpdateInheritData 1 9, NotifyUpdatePre 2 9,
         UpdateInheritData 2 9, NotifyUpdatePre 3 9, UpdateInheritData 3 9]"
    by blast
  with visit_order[of demo_ops 9 1 demo_world demo_tree] pre
  have pass: "\<exists>w'. accept (updateDataVisitor demo_ops 9) demo_tree (Inr demo_world) =
        (TRAVERSE_CONTINUE, Inr w') \<and>
      events (compounds w') =
        [NotifyUpdatePre 1 9, UpdateInheritData 1 9, NotifyUpdatePre 2 9,
         UpdateInheritData 2 9, NotifyUpdatePre 3 9, UpdateInheritData 3 9]"
    by simp
  have "\<exists>rw. visit demo_ops 9 1 demo_world = Inr rw"
    by (simp add: visit_def updateDrawFinish_def demo_ops_def demo_world_def demo_tasks_def
        demo_parent_def Let_def)
  then obtain r w1 where v: "visit demo_ops 9 1 demo_world = Inr (r, w1)"
    by (metis surj_pair)
  from visit_order[of demo_ops 9 1 demo_world]
  have "\<forall>r w'. visit demo_ops 9 1 demo_world = Inr (r, w') \<longrightarrow>
      r = TRAVERSE_CONTINUE \<and>
      compounds w' = updateInheritData demo_ops 1 9 (fireUpdatePre demo_ops 1 9 (compounds demo_world))"
    by (rule conjunct1[OF conjunct2])
  from this[rule_format, OF v] have "r = TRAVERSE_CONTINUE"
    and "events (compounds w1) = [NotifyUpdatePre 1 9, UpdateInheritData 1 9]"
    by (simp_all add: demo_ops_def demo_world_def)
  with v have "\<exists>w'. visit demo_ops 9 1 demo_world = Inr (TRAVERSE_CONTINUE, w') \<and>
      events (compounds w') = [NotifyUpdatePre 1 9, UpdateInheritData 1 9]"
    by blast
  with pass show ?thesis by (rule conjI)
qed


section \<open>Properties of the view\<close>

text \<open>
  Claim C9. The destructor of a view completes only for a view whose pointer to its layout
  is null, and leaves it null; the destruction of a view whose layout pointer is still set
  fails the assertion.
\<close>

theorem View_dtor_layout:
  "(\<forall>v'. View_dtor v = Inr v' \<longrightarrow> layout v = None \<and> layout v' = None) \<and>
   (layout v = None \<longrightarrow> View_dtor v = Inr v) \<and>
   (layout v \<noteq> None \<longrightarrow> View_dtor v = Inl AssertFailed)"
  by (cases "layout v") (auto simp: View_dtor_def EQASSERT_def)

text \<open>
  Witness for C9: a freshly constructed view is destroyed; the same view with its layout set
  is not.
\<close>

theorem View_dtor_layout_witness:
  "(View_dtor (View_ctor (0::nat) (1::nat)) = Inr (View_ctor 0 1) \<and>
    layout (View_ctor (0::nat) (1::nat)) = None) \<and>
   View_dtor (View_ctor (0::nat) (1::nat)\<lparr>layout := Some 3\<rparr>) = Inl AssertFailed"
proof
  have null: "layout (View_ctor (0::nat) (1::nat)) = None"
    by (simp add: View_ctor_def)
  from View_dtor_layout[of "View_ctor (0::nat) (1::nat)"]
  have "layout (View_ctor (0::nat) (1::nat)) = None \<longrightarrow>
      View_dtor (View_ctor (0::nat) (1::nat)) = Inr (View_ctor 0 1)"
    by (rule conjunct1[OF conjunct2])
  from this null have fine: "View_dtor (View_ctor (0::nat) (1::nat)) = Inr (View_ctor 0 1)"
    by (rule mp)
  from View_dtor_layout[of "View_ctor (0::nat) (1::nat)"]
  have "\<forall>v'. View_dtor (View_ctor (0::nat) (1::nat)) = Inr v' \<longrightarrow>
      layout (View_ctor (0::nat) (1::nat)) = None \<and> layout v' = None"
    by (rule conjunct1)
  from this[rule_format, OF fine] have "layout (View_ctor (0::nat) (1::nat)) = None"
    by (rule conjunct1)
  with fine show "View_dtor (View_ctor (0::nat) (1::nat)) = Inr (View_ctor 0 1) \<and>
    layout (View_ctor (0::nat) (1::nat)) = None"
    by (rule conjI)
next
  have set: "layout (View_ctor (0::nat) (1::nat)\<lparr>layout := Some 3\<rparr>) \<noteq> None"
    by simp
  from View_dtor_layout[of "View_ctor (0::nat) (1::nat)\<lparr>layout := Some 3\<rparr>"]
  have "layout (View_ctor (0::nat) (1::nat)\<lparr>layout := Some 3\<rparr>) \<noteq> None \<longrightarrow>
      View_dtor (View_ctor (0::nat) (1::nat)\<lparr>layout := Some 3\<rparr>) = Inl AssertFailed"
    by (rule conjunct2[OF conjunct2])
  from this set
  show "View_dtor (View_ctor (0::nat) (1::nat)\<lparr>layout := Some 3\<rparr>) = Inl AssertFailed"
    by (rule mp)
qed


text \<open>
  Claim C5. \<open>serialize\<close> appends what the base class writes and then the viewport, the
  viewport exactly when the dirty bits have a bit of \<^verbatim>\<open>DIRTY_VIEWPORT\<close>. When the
  base class reads back what it wrote, \<open>deserialize\<close> with the same dirty bits consumes
  exactly what \<open>serialize\<close> wrote and leaves the rest of the stream; it sets the viewport
  to the serialized one when the dirty bits have the viewport bit, and keeps the receiver's
  viewport (and always its layout pointer) otherwise.
\<close>

theorem serialize_roundtrip:
  "serialize F v os d =
     os @ Frustum_serialize F (frustum v) d @
       (if d AND DIRTY_VIEWPORT F \<noteq> 0 then [ViewportData (viewport v)] else []) \<and>
   (\<forall>fr' rest.
      (\<forall>tail. Frustum_deserialize F (frustum v0) (Frustum_serialize F (frustum v) d @ tail) d =
                Some (fr', tail)) \<longrightarrow>
      deserialize F v0 (serialize F v [] d @ rest) d =
        Some (v0\<lparr>frustum := fr',
                 viewport := (if d AND DIRTY_VIEWPORT F \<noteq> 0 then viewport v else viewport v0)\<rparr>,
              rest))"
proof (intro conjI allI impI)
  show "serialize F v os d =
     os @ Frustum_serialize F (frustum v) d @
       (if d AND DIRTY_VIEWPORT F \<noteq> 0 then [ViewportData (viewport v)] else [])"
    by (simp add: serialize_def put_viewport_def Let_def)
next
  fix fr' rest
  assume base: "\<forall>tail. Frustum_deserialize F (frustum v0) (Frustum_serialize F (frustum v) d @ tail) d =
                Some (fr', tail)"
  show "deserialize F v0 (serialize F v [] d @ rest) d =
        Some (v0\<lparr>frustum := fr',
                 viewport := (if d AND DIRTY_VIEWPORT F \<noteq> 0 then viewport v else viewport v0)\<rparr>,
              rest)"
  proof (cases "d AND DIRTY_VIEWPORT F \<noteq> 0")
    case True
    then have "serialize F v [] d @ rest =
        Frustum_serialize F (frustum v) d @ (ViewportData (viewport v) # rest)"
      by (simp add: serialize_def put_viewport_def Let_def)
    with base True show ?thesis by (simp add: deserialize_def)
  next
    case False
    then have "serialize F v [] d @ rest = Frustum_serialize F (frustum v) d @ rest"
      by (simp add: serialize_def Let_def)
    with base False show ?thesis by (simp add: deserialize_def)
  qed
qed

text \<open>
  Witness for C5: with dirty bits 3 the payload holds the frustum and the viewport and the
  round trip restores both; with dirty bits 1 the payload holds the frustum only and the
  receiver keeps its viewport.
\<close>

theorem serialize_roundtrip_witness:
  "serialize demo_frustum \<lparr>frustum = 10, viewport = 20, layout = None\<rparr> [] 3 =
     [FrustumData 10, ViewportData 20] \<and>
   deserialize demo_frustum \<lparr>frustum = 0, viewport = 0, layout = Some 4\<rparr>
       (serialize demo_frustum \<lparr>frustum = 10, viewport = 20, layout = None\<rparr> [] 3 @ [FrustumData 7]) 3 =
     Some (\<lparr>frustum = 10, viewport = 20, layout = Some 4\<rparr>, [FrustumData 7]) \<and>
   serialize demo_frustum \<lparr>frustum = 10, viewport = 20, layout = None\<rparr> [] 1 = [FrustumData 10] \<and>
   deserialize demo_frustum \<lparr>frustum = 0, viewport = 0, layout = Some 4\<rparr>
       (serialize demo_frustum \<lparr>frustum = 10, viewport = 20, layout = None\<rparr> [] 1 @ [FrustumData 7]) 1 =
     Some (\<lparr>frustum = 10, viewport = 0, layout = Some 4\<rparr>, [FrustumData 7])"
proof -
  let ?new = "\<lparr>frustum = 10::nat, viewport = 20::nat, layout = None\<rparr>"
  let ?old = "\<lparr>frustum = 0::nat, viewport = 0::nat, layout = Some 4\<rparr>"
  have b3: "\<forall>tail. Frustum_deserialize demo_frustum (frustum ?old)
       (Frustum_serialize demo_frustum (frustum ?new) 3 @ tail) 3 = Some (10, tail)"
    by (simp add: demo_frustum_def)
  have b1: "\<forall>tail. Frustum_deserialize demo_frustum (frustum ?old)
       (Frustum_serialize demo_frustum (frustum ?new) 1 @ tail) 1 = Some (10, tail)"
    by (simp add: demo_frustum_def)
  note r3 = serialize_roundtrip[of demo_frustum ?new "[]" 3 ?old]
  note r1 = serialize_roundtrip[of demo_frustum ?new "[]" 1 ?old]
  have s3: "serialize demo_frustum ?new [] 3 = [FrustumData 10, ViewportData 20]"
    using r3 by (simp add: demo_frustum_def)
  have s1: "serialize demo_frustum ?new [] 1 = [FrustumData 10]"
    using r1 by (simp add: demo_frustum_def)
  from r3 have "(\<forall>tail. Frustum_deserialize demo_frustum (frustum ?old)
       (Frustum_serialize demo_frustum (frustum ?new) 3 @ tail) 3 = Some (10, tail)) \<longrightarrow>
      deserialize demo_frustum ?old (serialize demo_frustum ?new [] 3 @ [FrustumData 7]) 3 =
        Some (?old\<lparr>frustum := 10,
                 viewport := (if 3 AND DIRTY_VIEWPORT demo_frustum \<noteq> 0 then viewport ?new else viewport ?old)\<rparr>,
              [FrustumData 7])"
    by blast
  from this b3 have d3: "deserialize demo_frustum ?old (serialize demo_frustum ?new [] 3 @ [FrustumData 7]) 3 =
        Some (?old\<lparr>frustum := 10,
                 viewport := (if 3 AND DIRTY_VIEWPORT demo_frustum \<noteq> 0 then viewport ?new else viewport ?old)\<rparr>,
              [FrustumData 7])"
    by (rule mp)
  from r1 have "(\<forall>tail. Frustum_deserialize demo_frustum (frustum ?old)
       (Frustum_serialize demo_frustum (frustum ?new) 1 @ tail) 1 = Some (10, tail)) \<longrightarrow>
      deserialize demo_frustum ?old (serialize demo_frustum ?new [] 1 @ [FrustumData 7]) 1 =
        Some (?old\<lparr>frustum := 10,
                 viewport := (if 1 AND DIRTY_VIEWPORT demo_frustum \<noteq> 0 then viewport ?new else viewport ?old)\<rparr>,
              [FrustumData 7])"
    by blast
  from this b1 have d1: "deserialize demo_frustum ?old (serialize demo_frustum ?new [] 1 @ [FrustumData 7]) 1 =
        Some (?old\<lparr>frustum := 10,
                 viewport := (if 1 AND DIRTY_VIEWPORT demo_frustum \<noteq> 0 then viewport ?new else viewport ?old)\<rparr>,
              [FrustumData 7])"
    by (rule mp)
  have dv3: "(3::64 word) AND DIRTY_VIEWPORT demo_frustum \<noteq> 0"
    and dv1: "(1::64 word) AND DIRTY_VIEWPORT demo_frustum = 0"
    by (simp_all add: demo_frustum_def)
  show ?thesis
    unfolding s3 s1 using d3 d1 dv3 dv1 unfolding s3 s1 by simp
qed



section \<open>Properties of the command handlers\<close>




section \<open>Properties of the initialisation of a channel\<close>

lemma syncConfigInit_left:
  assumes "state ch \<noteq> STATE_INITIALIZING"
  shows "syncConfigInit replies ch = Some (state ch = STATE_RUNNING, ch, replies)"
  using assms by (simp add: syncConfigInit.simps)

lemma syncConfigInit_result:
  assumes "syncConfigInit replies ch = Some (b, ch', rest)"
  shows "state ch' \<noteq> STATE_INITIALIZING \<and> b = (state ch' = STATE_RUNNING)"
  using assms
proof (induction replies ch rule: syncConfigInit.induct)
  case (1 replies ch)
  show ?case
  proof (cases "state ch \<noteq> STATE_INITIALIZING")
    case True
    with "1.prems" show ?thesis by (auto simp: syncConfigInit_left)
  next
    case False
    with "1.prems" obtain result tl where r: "replies = result # tl"
      by (cases replies) (auto simp: syncConfigInit.simps)
    with False "1.prems"
    have "syncConfigInit tl (cmdConfigInitReply result ch) = Some (b, ch', rest)"
      by (simp add: syncConfigInit.simps)
    with "1.IH" False r show ?thesis by simp
  qed
qed

text \<open>
  Claim C8. \<open>startConfigInit\<close> is a total function (it does not wait) and leaves the
  state \<open>STATE_INITIALIZING\<close>. After it, \<open>syncConfigInit\<close> waits as long as no reply is
  handled; when a reply is handled it returns the reply's result, true with the state
  \<open>STATE_RUNNING\<close> and false with the state \<open>STATE_INIT_FAILED\<close>. Whenever
  \<open>syncConfigInit\<close> returns, the state is not \<open>STATE_INITIALIZING\<close>, the value is true
  exactly when the state is \<open>STATE_RUNNING\<close>, and a second call returns the same value and
  changes nothing.
\<close>

theorem configInit_state_machine:
  "state (fst (startConfigInit instances initID ch)) = STATE_INITIALIZING \<and>
   syncConfigInit [] (fst (startConfigInit instances initID ch)) = None \<and>
   (\<exists>ch'. syncConfigInit (result # replies) (fst (startConfigInit instances initID ch)) =
             Some (result, ch', replies) \<and>
          state ch' = (if result then STATE_RUNNING else STATE_INIT_FAILED)) \<and>
   (\<forall>b ch' rest. syncConfigInit replies ch = Some (b, ch', rest) \<longrightarrow>
      state ch' \<noteq> STATE_INITIALIZING \<and> (b \<longleftrightarrow> state ch' = STATE_RUNNING) \<and>
      syncConfigInit rest ch' = Some (b, ch', rest))"
proof (intro conjI allI impI)
  show "state (fst (startConfigInit instances initID ch)) = STATE_INITIALIZING"
    by (simp add: startConfigInit_def)
  show "syncConfigInit [] (fst (startConfigInit instances initID ch)) = None"
    by (simp add: startConfigInit_def syncConfigInit.simps)
  have "syncConfigInit (result # replies) (fst (startConfigInit instances initID ch)) =
      syncConfigInit replies
        (ch\<lparr>state := (if result then STATE_RUNNING else STATE_INIT_FAILED)\<rparr>)"
    by (simp add: startConfigInit_def cmdConfigInitReply_def syncConfigInit.simps[of "_ # _"])
  also have "\<dots> = Some (result, ch\<lparr>state := (if result then STATE_RUNNING else STATE_INIT_FAILED)\<rparr>, replies)"
    by (simp add: syncConfigInit_left)
  finally show "\<exists>ch'. syncConfigInit (result # replies) (fst (startConfigInit instances initID ch)) =
             Some (result, ch', replies) \<and>
          state ch' = (if result then STATE_RUNNING else STATE_INIT_FAILED)"
    by simp
next
  fix b ch' rest assume run: "syncConfigInit replies ch = Some (b, ch', rest)"
  from syncConfigInit_result[OF run]
  show "state ch' \<noteq> STATE_INITIALIZING" and "b \<longleftrightarrow> state ch' = STATE_RUNNING"
    by simp_all
  then show "syncConfigInit rest ch' = Some (b, ch', rest)"
    by (simp add: syncConfigInit_left)
qed

text \<open>
  Witness for C8: the initialisation fails; the second \<open>syncConfigInit\<close> returns false
  again and handles no further reply.
\<close>

theorem configInit_state_machine_witness:
  "syncConfigInit [False, True]
      (fst (startConfigInit [1, 2] 9 \<lparr>state = STATE_STOPPED, lastDrawCompound = None\<rparr>)) =
     Some (False, \<lparr>state = STATE_INIT_FAILED, lastDrawCompound = None\<rparr>, [True]) \<and>
   syncConfigInit [True] \<lparr>state = STATE_INIT_FAILED, lastDrawCompound = None\<rparr> =
     Some (False, \<lparr>state = STATE_INIT_FAILED, lastDrawCompound = None\<rparr>, [True])"
proof -
  let ?start = "fst (startConfigInit [1, 2] 9 \<lparr>state = STATE_STOPPED, lastDrawCompound = None\<rparr>)"
  let ?failed = "\<lparr>state = STATE_INIT_FAILED, lastDrawCompound = None\<rparr>"
  have first: "syncConfigInit [False, True] ?start = Some (False, ?failed, [True])"
    by (simp add: startConfigInit_def cmdConfigInitReply_def syncConfigInit.simps)
  from configInit_state_machine[where replies = "[False, True]" and ch = ?start]
  have "syncConfigInit [False, True] ?start = Some (False, ?failed, [True]) \<longrightarrow>
      syncConfigInit [True] ?failed = Some (False, ?failed, [True])"
    by blast
  from this first have "syncConfigInit [True] ?failed = Some (False, ?failed, [True])"
    by (rule mp)
  with first show ?thesis by (intro conjI)
qed


section \<open>Properties of compare and swap\<close>

lemma take_bit_8_sint:
  "take_bit 8 (sint (j :: 32 word)) = take_bit 8 (uint j)"
  by (rule bit_eqI) (auto simp: bit_take_bit_iff bit_sint_iff bit_uint_iff)

lemma int_to_uint8_mod:
  "int_to_uint8 j = word_of_int (sint j mod 256)"
proof -
  have "sint j mod 256 = take_bit 8 (sint j)"
    by (simp add: take_bit_eq_mod)
  then have "take_bit LENGTH(8) (sint j mod 256) = take_bit LENGTH(8) (uint j)"
    by (simp add: take_bit_8_sint)
  then have "(word_of_int (sint j mod 256) :: 8 word) = word_of_int (uint j)"
    by (simp only: word_of_int_eq_iff)
  then show ?thesis
    by (simp add: int_to_uint8_def)
qed

text \<open>
  Claim C10. For every location and every pair of values, of whatever two types,
  \<open>compareAndSwap\<close> returns true exactly when \<^verbatim>\<open>*addr == old\<close> holds; then it stores
  \<open>nw\<close> in the location (\<^verbatim>\<open>*addr = nw\<close>). When \<^verbatim>\<open>*addr == old\<close> does not hold
  it returns false and the memory is unchanged. No other location changes in either case.
  Where the location and the values have one type, this is: true and \<open>nw\<close> stored exactly
  when the location holds \<open>old\<close>. Where the location is a \<^verbatim>\<open>uint8_t\<close> and the values
  are \<^verbatim>\<open>int\<close>s, it is: true exactly when the location's value is the
  \<^verbatim>\<open>int\<close> \<open>old\<close>, and then \<open>nw\<close> modulo 256 is stored.
\<close>

theorem compareAndSwap_spec:
  "(fst (compareAndSwap equals assign addr old nw mem) \<longleftrightarrow> equals (mem addr) old) \<and>
   (equals (mem addr) old \<longrightarrow>
      compareAndSwap equals assign addr old nw mem = (True, mem(addr := assign nw))) \<and>
   (\<not> equals (mem addr) old \<longrightarrow>
      compareAndSwap equals assign addr old nw mem = (False, mem)) \<and>
   (\<forall>a. a \<noteq> addr \<longrightarrow> snd (compareAndSwap equals assign addr old nw mem) a = mem a) \<and>
   (fst (compareAndSwap (=) id addr old' nw' mem) \<longleftrightarrow> mem addr = old') \<and>
   (mem addr = old' \<longrightarrow> compareAndSwap (=) id addr old' nw' mem = (True, mem(addr := nw'))) \<and>
   (mem addr \<noteq> old' \<longrightarrow> compareAndSwap (=) id addr old' nw' mem = (False, mem)) \<and>
   (uint (bytes addr) = sint i \<longrightarrow>
      compareAndSwap uint8_equals_int int_to_uint8 addr i j bytes =
        (True, bytes(addr := word_of_int (sint j mod 256)))) \<and>
   (uint (bytes addr) \<noteq> sint i \<longrightarrow>
      compareAndSwap uint8_equals_int int_to_uint8 addr i j bytes = (False, bytes))"
  by (simp add: compareAndSwap_def uint8_equals_int_def int_to_uint8_mod)

text \<open>
  Witness for C10: on a location and values of one type, a swap that succeeds and one that
  fails; on a \<^verbatim>\<open>uint8_t\<close> location holding 5 with \<^verbatim>\<open>int\<close> values, the swap
  fails for \<open>old = 261\<close> (5 and 261 are different \<^verbatim>\<open>int\<close>s), and succeeds for
  \<open>old = 5\<close>, storing the low eight bits of \<open>nw = 265\<close>.
\<close>

theorem compareAndSwap_spec_witness:
  "(demo_mem 1 = 5 \<and> fst (compareAndSwap (=) id 1 5 9 demo_mem) \<and>
    snd (compareAndSwap (=) id 1 5 9 demo_mem) 1 = 9 \<and>
    snd (compareAndSwap (=) id 1 5 9 demo_mem) 2 = demo_mem 2 \<and>
    demo_mem 1 \<noteq> 4 \<and> compareAndSwap (=) id 1 4 9 demo_mem = (False, demo_mem)) \<and>
   (\<not> uint8_equals_int (demo_bytes 1) 261 \<and>
    compareAndSwap uint8_equals_int int_to_uint8 1 261 9 demo_bytes = (False, demo_bytes) \<and>
    uint8_equals_int (demo_bytes 1) 5 \<and>
    fst (compareAndSwap uint8_equals_int int_to_uint8 1 5 265 demo_bytes) \<and>
    snd (compareAndSwap uint8_equals_int int_to_uint8 1 5 265 demo_bytes) 1 = 9)"
proof
  have eq: "demo_mem 1 = 5" and ne: "demo_mem 1 \<noteq> 4"
    by (simp_all add: demo_mem_def)
  from compareAndSwap_spec[of "(=)" id 1 5 9 demo_mem 5 9] eq
  have "fst (compareAndSwap (=) id 1 5 9 demo_mem)"
    and "snd (compareAndSwap (=) id 1 5 9 demo_mem) 1 = 9"
    and "snd (compareAndSwap (=) id 1 5 9 demo_mem) 2 = demo_mem 2"
    by simp_all
  moreover from compareAndSwap_spec[of "(=)" id 1 4 9 demo_mem 4 9] ne
  have "compareAndSwap (=) id 1 4 9 demo_mem = (False, demo_mem)"
    by simp
  ultimately show "demo_mem 1 = 5 \<and> fst (compareAndSwap (=) id 1 5 9 demo_mem) \<and>
    snd (compareAndSwap (=) id 1 5 9 demo_mem) 1 = 9 \<and>
    snd (compareAndSwap (=) id 1 5 9 demo_mem) 2 = demo_mem 2 \<and>
    demo_mem 1 \<noteq> 4 \<and> compareAndSwap (=) id 1 4 9 demo_mem = (False, demo_mem)"
    using eq ne by simp
next
  have differ: "\<not> uint8_equals_int (demo_bytes 1) 261"
    and same: "uint8_equals_int (demo_bytes 1) 5"
    by (simp_all add: uint8_equals_int_def demo_bytes_def)
  have low: "int_to_uint8 265 = 9"
    by (simp add: int_to_uint8_def)
  from compareAndSwap_spec[of uint8_equals_int int_to_uint8 1 261 9 demo_bytes] differ
  have "compareAndSwap uint8_equals_int int_to_uint8 1 261 9 demo_bytes = (False, demo_bytes)"
    by simp
  moreover from compareAndSwap_spec[of uint8_equals_int int_to_uint8 1 5 265 demo_bytes] same
  have "compareAndSwap uint8_equals_int int_to_uint8 1 5 265 demo_bytes =
      (True, demo_bytes(1 := int_to_uint8 265))"
    by simp
  ultimately show "\<not> uint8_equals_int (demo_bytes 1) 261 \<and>
    compareAndSwap uint8_equals_int int_to_uint8 1 261 9 demo_bytes = (False, demo_bytes) \<and>
    uint8_equals_int (demo_bytes 1) 5 \<and>
    fst (compareAndSwap uint8_equals_int int_to_uint8 1 5 265 demo_bytes) \<and>
    snd (compareAndSwap uint8_equals_int int_to_uint8 1 5 265 demo_bytes) 1 = 9"
    using differ same low by simp
qed

end
